theory Spec2Isabelle
  imports Complex_Main "HOL-Library.Multiset" "HOL-Library.AList"
begin

section \<open>Data model\<close>

text \<open>
  The Go packages \<^verbatim>\<open>retrieve\<close>, \<open>graph\<close>, \<open>memory\<close> and \<open>hybrid\<close> are embedded
  here. A Go \<^verbatim>\<open>float64\<close> is read as a real number: rounding, infinities and NaN are not
  modelled, so every statement about a score is a statement about the exact value of the
  expression the code evaluates. A Go \<^verbatim>\<open>int\<close> is read as an unbounded integer (the only
  arithmetic on them is a queue depth plus one and the sum of two candidate counts).
  Several structs share field names (\<open>ID\<close>, \<open>Type\<close>, \<open>Metadata\<close>, ...); a field is
  written with its record's name in front where two of them could be meant.
\<close>

subsection \<open>package graph: nodes, edges, traversal\<close>

record Node =
  ID :: string
  Type :: string
  Content :: string
  Source :: string
  Metadata :: "string \<rightharpoonup> string"

record Edge =
  From :: string
  To :: string
  Type :: string
  Weight :: real
  Metadata :: "string \<rightharpoonup> string"

record TraversalResult =
  Nodes :: "Node list"
  Edges :: "Edge list"
  Paths :: "string \<rightharpoonup> string list"

record TraversalOptions =
  Depth :: int
  EdgeTypes :: "string list"
  NodeTypes :: "string list"
  MaxNodes :: int
  MinWeight :: real

subsection \<open>package retrieve: queries, items, results\<close>

type_synonym Mode = string

definition ModeVector :: Mode where "ModeVector = ''vector''"
definition ModeGraph :: Mode where "ModeGraph = ''graph''"
definition ModeHybrid :: Mode where "ModeHybrid = ''hybrid''"

text \<open>Go's \<^verbatim>\<open>any\<close> (the values of a query's metadata) stays abstract.\<close>

typedecl any

datatype error = Err string

record EntityHint =
  ID :: string
  Type :: string
  Name :: string
  Confidence :: real

record Query =
  Text :: string
  Embedding :: "real list"
  Entities :: "EntityHint list"
  Filters :: "string \<rightharpoonup> string"
  MaxDepth :: int
  TopK :: int
  Modes :: "Mode list"
  MinScore :: real
  Metadata :: "string \<rightharpoonup> any"

record Provenance =
  Mode :: Mode
  Backend :: string
  GraphPath :: "string list"
  SimilarityScore :: real
  RerankerScore :: real

record ContextItem =
  ID :: string
  Content :: string
  Source :: string
  Score :: real
  Metadata :: "string \<rightharpoonup> string"
  Provenance :: Provenance

record ResultMetadata =
  TotalCandidates :: int
  LatencyMS :: int
  ModesUsed :: "Mode list"
  CacheHit :: bool

record Result =
  Items :: "ContextItem list"
  Query :: Query
  Metadata :: ResultMetadata

text \<open>
  The interfaces \<^verbatim>\<open>retrieve.Retriever\<close> and \<^verbatim>\<open>retrieve.Reranker\<close>. A call returns
  either an error or a result, as the Go callers assume (a nil result is only ever read
  after a nil error). The context argument and the observer carry no data of the result.
\<close>

type_synonym Retriever = "Query \<Rightarrow> error + Result"
type_synonym Reranker = "Query \<Rightarrow> ContextItem list \<Rightarrow> error + ContextItem list"

section \<open>package memory: the in-memory knowledge graph\<close>

text \<open>
  \<^verbatim>\<open>kg.nodes[id]\<close> is a lookup that may miss; \<^verbatim>\<open>kg.edges[id]\<close> yields the nil slice for
  an identifier without edges, so \<open>edges\<close> is a total function into lists. The mutex
  guards against concurrent writers and has no model here.
\<close>

record memory_KnowledgeGraph =
  name :: string
  nodes :: "string \<rightharpoonup> Node"
  edges :: "string \<Rightarrow> Edge list"

definition NewKnowledgeGraph :: "string \<Rightarrow> memory_KnowledgeGraph" where
  "NewKnowledgeGraph n = \<lparr>name = n, nodes = Map.empty, edges = (\<lambda>_. [])\<rparr>"

definition AddNode :: "memory_KnowledgeGraph \<Rightarrow> Node \<Rightarrow> memory_KnowledgeGraph" where
  "AddNode kg node = kg\<lparr>nodes := (nodes kg)(Node.ID node \<mapsto> node)\<rparr>"

definition AddEdge :: "memory_KnowledgeGraph \<Rightarrow> Edge \<Rightarrow> memory_KnowledgeGraph" where
  "AddEdge kg edge = kg\<lparr>edges := (edges kg)(From edge := edges kg (From edge) @ [edge])\<rparr>"

fun containsString :: "string list \<Rightarrow> string \<Rightarrow> bool" where
  "containsString [] s = False"
| "containsString (item # slice) s = (if item = s then True else containsString slice s)"

record queueItem =
  nodeID :: string
  path :: "string list"
  depth :: int

text \<open>The local variables of \<^verbatim>\<open>Traverse\<close>; \<open>visited\<close> holds the keys mapped to true.\<close>

record bfsState =
  visited :: "string set"
  paths :: "string \<rightharpoonup> string list"
  resultNodes :: "Node list"
  resultEdges :: "Edge list"
  queue :: "queueItem list"

text \<open>One round of the inner loop over the outgoing edges of the current node.\<close>

definition traverseEdge :: "TraversalOptions \<Rightarrow> queueItem \<Rightarrow> bfsState \<Rightarrow> Edge \<Rightarrow> bfsState" where
  "traverseEdge opts current st edge =
     (if length (EdgeTypes opts) > 0 \<and> \<not> containsString (EdgeTypes opts) (Edge.Type edge) then st
      else if Weight edge < MinWeight opts then st
      else if To edge \<notin> visited st
      then st\<lparr>queue := queue st @
                 [\<lparr>nodeID = To edge, path = path current @ [To edge], depth = depth current + 1\<rparr>],
              resultEdges := resultEdges st @ [edge]\<rparr>
      else st)"

text \<open>The rest of an iteration once the node has been recorded: the depth check and the edges.\<close>

definition expand ::
  "memory_KnowledgeGraph \<Rightarrow> TraversalOptions \<Rightarrow> queueItem \<Rightarrow> bfsState \<Rightarrow> bfsState" where
  "expand kg opts current st =
     (if depth current \<ge> Depth opts then st
      else foldl (traverseEdge opts current) st (edges kg (nodeID current)))"

text \<open>The body of the outer loop; it runs only on a non-empty queue.\<close>

definition bfsIter :: "memory_KnowledgeGraph \<Rightarrow> TraversalOptions \<Rightarrow> bfsState \<Rightarrow> bfsState" where
  "bfsIter kg opts st =
     (case queue st of
        [] \<Rightarrow> st
      | current # rest \<Rightarrow>
          (let st = st\<lparr>queue := rest\<rparr>
           in if nodeID current \<in> visited st then st
              else
                (let st = st\<lparr>visited := insert (nodeID current) (visited st)\<rparr>
                 in case nodes kg (nodeID current) of
                      Some node \<Rightarrow>
                        (if length (NodeTypes opts) > 0
                            \<and> \<not> containsString (NodeTypes opts) (Node.Type node)
                         then st
                         else expand kg opts current
                                (st\<lparr>resultNodes := resultNodes st @ [node],
                                    paths := (paths st)(nodeID current \<mapsto> path current)\<rparr>))
                    | None \<Rightarrow> expand kg opts current st)))"

definition bfsCond :: "TraversalOptions \<Rightarrow> bfsState \<Rightarrow> bool" where
  "bfsCond opts st = (length (queue st) > 0 \<and> int (length (resultNodes st)) < MaxNodes opts)"

text \<open>
  Every queue item carries its depth, a child is one deeper than its parent and is only
  produced below \<open>Depth\<close>: the multiset of the distances to \<open>Depth\<close> of the queued items
  decreases in each round.
\<close>

definition remaining :: "TraversalOptions \<Rightarrow> bfsState \<Rightarrow> nat multiset" where
  "remaining opts st = mset (map (\<lambda>q. nat (Depth opts - depth q)) (queue st))"

lemma queue_foldl_traverseEdge:
  "\<exists>new. queue (foldl (traverseEdge opts current) st es) = queue st @ new
      \<and> list_all (\<lambda>q. depth q = depth current + 1) new"
proof (induction es arbitrary: st)
  case Nil
  show ?case by simp
next
  case (Cons e es)
  obtain new where new: "queue (foldl (traverseEdge opts current) (traverseEdge opts current st e) es)
      = queue (traverseEdge opts current st e) @ new"
    "list_all (\<lambda>q. depth q = depth current + 1) new"
    using Cons.IH by blast
  show ?case
  proof (cases "queue (traverseEdge opts current st e) = queue st")
    case True
    with new show ?thesis by auto
  next
    case False
    then have "queue (traverseEdge opts current st e) = queue st @
        [\<lparr>nodeID = To e, path = path current @ [To e], depth = depth current + 1\<rparr>]"
      by (auto simp: traverseEdge_def split: if_splits)
    with new show ?thesis by auto
  qed
qed

lemma queue_expand:
  "\<exists>new. queue (expand kg opts current st) = queue st @ new
      \<and> list_all (\<lambda>q. nat (Depth opts - depth q) < nat (Depth opts - depth current)) new"
proof (cases "depth current \<ge> Depth opts")
  case True
  then show ?thesis by (simp add: expand_def)
next
  case False
  obtain new where new: "queue (foldl (traverseEdge opts current) st (edges kg (nodeID current)))
      = queue st @ new" "list_all (\<lambda>q. depth q = depth current + 1) new"
    using queue_foldl_traverseEdge by blast
  from new(2) False
  have "list_all (\<lambda>q. nat (Depth opts - depth q) < nat (Depth opts - depth current)) new"
    by (auto simp: list_all_iff)
  with new(1) False show ?thesis by (auto simp: expand_def)
qed

lemma remaining_bfsIter:
  assumes "queue st \<noteq> []"
  shows "(remaining opts (bfsIter kg opts st), remaining opts st) \<in> mult less_than"
proof -
  obtain current rest where q: "queue st = current # rest"
    using assms by (cases "queue st") auto
  let ?r = "nat (Depth opts - depth current)"
  define P where "P s \<longleftrightarrow> (\<exists>new. queue s = rest @ new
      \<and> list_all (\<lambda>q. nat (Depth opts - depth q) < ?r) new)" for s :: bfsState
  have stop: "P s" if "queue s = rest" for s
    unfolding P_def using that by simp
  have more: "P (expand kg opts current s)" if "queue s = rest" for s
    unfolding P_def using queue_expand [of kg opts current s] that by simp
  have "P (bfsIter kg opts st)"
    unfolding bfsIter_def q
    by (simp add: Let_def stop more split: option.splits)
  then have "\<exists>new. queue (bfsIter kg opts st) = rest @ new
      \<and> list_all (\<lambda>q. nat (Depth opts - depth q) < ?r) new"
    by (simp add: P_def)
  then obtain new where new: "queue (bfsIter kg opts st) = rest @ new"
    "list_all (\<lambda>q. nat (Depth opts - depth q) < ?r) new"
    by blast
  let ?I = "mset (map (\<lambda>q. nat (Depth opts - depth q)) rest)"
  let ?K = "mset (map (\<lambda>q. nat (Depth opts - depth q)) new)"
  have "(?I + ?K, ?I + {#?r#}) \<in> mult less_than"
    using new(2) by (intro one_step_implies_mult) (auto simp: list_all_iff)
  then show ?thesis
    by (simp add: remaining_def new(1) q)
qed

function bfs :: "memory_KnowledgeGraph \<Rightarrow> TraversalOptions \<Rightarrow> bfsState \<Rightarrow> bfsState" where
  "bfs kg opts st = (if bfsCond opts st then bfs kg opts (bfsIter kg opts st) else st)"
  by pat_completeness auto
termination
proof (relation "inv_image (mult less_than) (\<lambda>(kg, opts, st). remaining opts st)")
  show "wf (inv_image (mult less_than) (\<lambda>(kg, opts, st). remaining opts st))"
    by (intro wf_inv_image wf_mult wf_less_than)
next
  fix kg opts st
  assume "bfsCond opts st"
  then have "queue st \<noteq> []" by (simp add: bfsCond_def)
  from remaining_bfsIter [OF this]
  show "((kg, opts, bfsIter kg opts st), (kg, opts, st))
      \<in> inv_image (mult less_than) (\<lambda>(kg, opts, st). remaining opts st)"
    by simp
qed

declare bfs.simps [simp del]

definition memory_Traverse ::
  "memory_KnowledgeGraph \<Rightarrow> string list \<Rightarrow> TraversalOptions \<Rightarrow> error + TraversalResult" where
  "memory_Traverse kg startNodes opts =
     (let queue = map (\<lambda>id. \<lparr>nodeID = id, path = [id], depth = 0\<rparr>)
                    (filter (\<lambda>id. nodes kg id \<noteq> None) startNodes);
          st = bfs kg opts
                 \<lparr>visited = {}, paths = Map.empty, resultNodes = [], resultEdges = [],
                  queue = queue\<rparr>
      in Inr \<lparr>Nodes = resultNodes st, Edges = resultEdges st, Paths = paths st\<rparr>)"

section \<open>package graph: the graph retriever\<close>

text \<open>
  The interface \<^verbatim>\<open>graph.KnowledgeGraph\<close>, with the three methods the retriever calls.
  \<open>memory_Traverse\<close> above is the \<open>Traverse\<close> of the in-memory implementation.
\<close>

record graph_KnowledgeGraph =
  Traverse :: "string list \<Rightarrow> TraversalOptions \<Rightarrow> error + TraversalResult"
  FindNodes :: "string \<Rightarrow> (string \<rightharpoonup> string) \<Rightarrow> error + Node list"
  Name :: string

record graph_RetrieverConfig =
  Graph :: graph_KnowledgeGraph
  DefaultDepth :: int
  DefaultMaxNodes :: int
  EdgeTypes :: "string list"

definition graph_NewRetriever :: "graph_RetrieverConfig \<Rightarrow> graph_RetrieverConfig" where
  "graph_NewRetriever cfg =
     (let cfg = (if DefaultDepth cfg = 0 then cfg\<lparr>DefaultDepth := 2\<rparr> else cfg)
      in if DefaultMaxNodes cfg = 0 then cfg\<lparr>DefaultMaxNodes := 20\<rparr> else cfg)"

text \<open>
  \<^verbatim>\<open>edgeWeights\<close>: a later edge with the same key overwrites an earlier one. Reading a
  key that is absent yields 0, the zero value of \<^verbatim>\<open>float64\<close>.
\<close>

definition edgeKey :: "string \<Rightarrow> string \<Rightarrow> string" where
  "edgeKey a b = a @ ''->'' @ b"

definition buildEdgeWeights :: "Edge list \<Rightarrow> (string \<rightharpoonup> real)" where
  "buildEdgeWeights es = foldl (\<lambda>m e. m(edgeKey (From e) (To e) \<mapsto> Weight e)) Map.empty es"

definition hopStep :: "(string \<rightharpoonup> real) \<Rightarrow> string list \<Rightarrow> real \<Rightarrow> nat \<Rightarrow> real" where
  "hopStep edgeWeights p score i =
     (let key = edgeKey (p ! i) (p ! (i + 1));
          weight = (case edgeWeights key of Some w \<Rightarrow> w | None \<Rightarrow> 0);
          weight = (if weight = 0 then 0.5 else weight);
          decayFactor = 0.8
      in score * (weight * decayFactor))"

definition computePathScore :: "string list \<Rightarrow> Edge list \<Rightarrow> real" where
  "computePathScore p es =
     (if length p = 0 then 1.0
      else foldl (hopStep (buildEdgeWeights es) p) 1.0 [0 ..< length p - 1])"

definition nodeItem ::
  "graph_RetrieverConfig \<Rightarrow> Node \<Rightarrow> string list \<Rightarrow> real \<Rightarrow> ContextItem" where
  "nodeItem r node p score =
     \<lparr>ID = Node.ID node, Content = Node.Content node, Source = Node.Source node,
      Score = score, Metadata = Node.Metadata node,
      Provenance = \<lparr>Mode = ModeGraph, Backend = Name (graph_RetrieverConfig.Graph r),
                    GraphPath = p, SimilarityScore = 0, RerankerScore = 0\<rparr>\<rparr>"

text \<open>The loop that turns the nodes of a traversal into items.\<close>

definition convertNode ::
  "graph_RetrieverConfig \<Rightarrow> Query \<Rightarrow> TraversalResult \<Rightarrow> ContextItem list \<Rightarrow> Node
     \<Rightarrow> ContextItem list" where
  "convertNode r q result items node =
     (let p = (case Paths result (Node.ID node) of Some p \<Rightarrow> p | None \<Rightarrow> []);
          score = computePathScore p (Edges result)
      in if score < MinScore q \<and> MinScore q > 0 then items
         else items @ [nodeItem r node p score])"

text \<open>
  \<open>elapsed\<close> is the reading of the clock at the end of the call
  (\<^verbatim>\<open>time.Since(start).Milliseconds()\<close>); nothing else depends on time.
\<close>

definition graph_Retrieve :: "graph_RetrieverConfig \<Rightarrow> int \<Rightarrow> Query \<Rightarrow> error + Result" where
  "graph_Retrieve r elapsed q =
     (let g = graph_RetrieverConfig.Graph r;
          startNodes = map EntityHint.ID (filter (\<lambda>e. EntityHint.ID e \<noteq> []) (Entities q))
      in case (if length startNodes = 0
               then (case FindNodes g [] (Filters q) of
                       Inl err \<Rightarrow> Inl err
                     | Inr ns \<Rightarrow> Inr (startNodes @ map Node.ID ns))
               else Inr startNodes) of
           Inl err \<Rightarrow> Inl err
         | Inr startNodes \<Rightarrow>
             if length startNodes = 0
             then Inr \<lparr>Items = [], Query = q,
                       Metadata = \<lparr>TotalCandidates = 0, LatencyMS = 0,
                                    ModesUsed = [ModeGraph], CacheHit = False\<rparr>\<rparr>
             else
               (let depth = (if MaxDepth q = 0 then DefaultDepth r else MaxDepth q);
                    maxNodes = (if TopK q = 0 then DefaultMaxNodes r else TopK q);
                    opts = \<lparr>Depth = depth, EdgeTypes = graph_RetrieverConfig.EdgeTypes r,
                            NodeTypes = [], MaxNodes = maxNodes, MinWeight = MinScore q\<rparr>
                in case Traverse g startNodes opts of
                     Inl err \<Rightarrow> Inl err
                   | Inr result \<Rightarrow>
                       (let items = foldl (convertNode r q result) [] (Nodes result)
                        in Inr \<lparr>Items = items, Query = q,
                                 Metadata = \<lparr>TotalCandidates = int (length (Nodes result)),
                                              LatencyMS = elapsed,
                                              ModesUsed = [ModeGraph], CacheHit = False\<rparr>\<rparr>)))"

section \<open>package hybrid\<close>

type_synonym Policy = string

definition PolicyParallel :: Policy where "PolicyParallel = ''parallel''"
definition PolicyVectorThenGraph :: Policy where "PolicyVectorThenGraph = ''vector_then_graph''"
definition PolicyGraphThenVector :: Policy where "PolicyGraphThenVector = ''graph_then_vector''"

record Weights =
  Vector :: real
  Graph :: real

definition DefaultWeights :: Weights where
  "DefaultWeights = \<lparr>Vector = 0.6, Graph = 0.4\<rparr>"

record hybrid_RetrieverConfig =
  Vector :: "Retriever option"
  Graph :: "Retriever option"
  Policy :: Policy
  Weights :: Weights
  Reranker :: "Reranker option"
  DedupByID :: bool

definition hybrid_NewRetriever :: "hybrid_RetrieverConfig \<Rightarrow> hybrid_RetrieverConfig" where
  "hybrid_NewRetriever cfg =
     (let cfg = (if Policy cfg = [] then cfg\<lparr>Policy := PolicyParallel\<rparr> else cfg)
      in if Weights.Vector (Weights cfg) = 0 \<and> Weights.Graph (Weights cfg) = 0
         then cfg\<lparr>Weights := DefaultWeights\<rparr> else cfg)"

subsection \<open>mergeResults\<close>

text \<open>
  \<^verbatim>\<open>merged\<close> is a Go map from identifier to a pointer to an item. It is kept here as an
  association list with one entry per key, in order of first insertion; writing through
  the pointer is an update of the entry. Go enumerates a map in an unspecified order:
  the list \<open>mergeResults\<close> returns stands for any of its permutations, and the theorems
  below speak about its members only.
\<close>

type_synonym merged = "(string \<times> ContextItem) list"

definition mergeVectorItem :: "hybrid_RetrieverConfig \<Rightarrow> merged \<Rightarrow> ContextItem \<Rightarrow> merged" where
  "mergeVectorItem r merged item =
     (let weightedScore = Score item * Weights.Vector (Weights r)
      in case map_of merged (ID item) of
           Some existing \<Rightarrow>
             AList.update (ID item) (existing\<lparr>Score := Score existing + weightedScore\<rparr>) merged
         | None \<Rightarrow> AList.update (ID item) (item\<lparr>Score := weightedScore\<rparr>) merged)"

definition mergeGraphItem :: "hybrid_RetrieverConfig \<Rightarrow> merged \<Rightarrow> ContextItem \<Rightarrow> merged" where
  "mergeGraphItem r merged item =
     (let weightedScore = Score item * Weights.Graph (Weights r)
      in case map_of merged (ID item) of
           Some existing \<Rightarrow>
             (let existing = existing\<lparr>Score := Score existing + weightedScore\<rparr>;
                  existing =
                    (if length (GraphPath (Provenance item)) > 0
                     then existing\<lparr>Provenance :=
                            (Provenance existing)\<lparr>GraphPath := GraphPath (Provenance item)\<rparr>\<rparr>
                     else existing)
              in AList.update (ID item) existing merged)
         | None \<Rightarrow> AList.update (ID item) (item\<lparr>Score := weightedScore\<rparr>) merged)"

definition setHybrid :: "ContextItem \<Rightarrow> ContextItem" where
  "setHybrid item = item\<lparr>Provenance := (Provenance item)\<lparr>Mode := ModeHybrid\<rparr>\<rparr>"

definition mergeResults ::
  "hybrid_RetrieverConfig \<Rightarrow> ContextItem list \<Rightarrow> ContextItem list \<Rightarrow> ContextItem list" where
  "mergeResults r vectorItems graphItems =
     (let merged = foldl (mergeVectorItem r) [] vectorItems;
          merged = foldl (mergeGraphItem r) merged graphItems
      in map (\<lambda>(k, item). setHybrid item) merged)"

subsection \<open>deduplicate\<close>

text \<open>
  \<^verbatim>\<open>seen\<close> maps an identifier to the index of its item in \<^verbatim>\<open>result\<close>. The index read
  from \<^verbatim>\<open>seen\<close> is always in range (lemma \<open>dedupLoop_inv\<close>), so the Go code never panics
  on \<^verbatim>\<open>result[idx]\<close>.
\<close>

fun dedupLoop ::
  "(string \<rightharpoonup> nat) \<Rightarrow> ContextItem list \<Rightarrow> ContextItem list \<Rightarrow> ContextItem list" where
  "dedupLoop seen result [] = result"
| "dedupLoop seen result (item # items) =
     (case seen (ID item) of
        Some idx \<Rightarrow>
          (if Score item > Score (result ! idx)
           then dedupLoop seen (result[idx := item]) items
           else dedupLoop seen result items)
      | None \<Rightarrow> dedupLoop (seen(ID item \<mapsto> length result)) (result @ [item]) items)"

definition deduplicate :: "ContextItem list \<Rightarrow> ContextItem list" where
  "deduplicate items = dedupLoop Map.empty [] items"

subsection \<open>The three policies\<close>

text \<open>
  A policy returns, beside its outcome, the calls it made to the two retrievers, in
  order. Under the parallel policy the two calls run in two goroutines, each sending
  one value on a channel of its own; the function reads both channels before it looks
  at either value, so its outcome is a function of the two values, and the order of the
  two calls in the list has no meaning there. In \<open>retrieveVectorThenGraph\<close> the guard
  \<^verbatim>\<open>r.config.Graph != nil && len(vectorItems) > 0\<close> is the \<open>case\<close> on the graph retriever,
  taken as absent when there are no vector items.
\<close>

datatype call = VectorRetrieve Query | GraphRetrieve Query

record branchResult =
  items :: "ContextItem list"
  count :: int
  err :: "error option"

definition runBranch :: "Retriever option \<Rightarrow> Query \<Rightarrow> branchResult" where
  "runBranch retriever q =
     (case retriever of
        None \<Rightarrow> \<lparr>items = [], count = 0, err = None\<rparr>
      | Some f \<Rightarrow>
          (case f q of
             Inl e \<Rightarrow> \<lparr>items = [], count = 0, err = Some e\<rparr>
           | Inr res \<Rightarrow> \<lparr>items = Items res, count = TotalCandidates (Result.Metadata res),
                          err = None\<rparr>))"

type_synonym policyResult = "call list \<times> (error + ContextItem list \<times> Mode list \<times> int)"

definition retrieveParallel :: "hybrid_RetrieverConfig \<Rightarrow> Query \<Rightarrow> policyResult" where
  "retrieveParallel r q =
     (let vectorRes = runBranch (Vector r) q;
          graphRes = runBranch (Graph r) q;
          calls = (if Vector r = None then [] else [VectorRetrieve q])
                @ (if Graph r = None then [] else [GraphRetrieve q])
      in (calls,
          case err vectorRes of
            Some e \<Rightarrow> Inl e
          | None \<Rightarrow>
              (case err graphRes of
                 Some e \<Rightarrow> Inl e
               | None \<Rightarrow>
                   (let merged = mergeResults r (items vectorRes) (items graphRes);
                        modesUsed = [ModeHybrid];
                        modesUsed = (if length (items vectorRes) > 0
                                     then modesUsed @ [ModeVector] else modesUsed);
                        modesUsed = (if length (items graphRes) > 0
                                     then modesUsed @ [ModeGraph] else modesUsed)
                    in Inr (merged, modesUsed, count vectorRes + count graphRes)))))"

definition entityHints :: "ContextItem list \<Rightarrow> EntityHint list" where
  "entityHints vectorItems =
     map (\<lambda>item. \<lparr>EntityHint.ID = ID item, Type = [], Name = ID item, Confidence = 0\<rparr>)
       vectorItems"

definition retrieveVectorThenGraph :: "hybrid_RetrieverConfig \<Rightarrow> Query \<Rightarrow> policyResult" where
  "retrieveVectorThenGraph r q =
     (case (case Vector r of
              None \<Rightarrow> Inr ([], [], 0, [ModeHybrid])
            | Some v \<Rightarrow>
                (case v q of
                   Inl e \<Rightarrow> Inl e
                 | Inr res \<Rightarrow>
                     Inr ([VectorRetrieve q], Items res,
                          0 + TotalCandidates (Result.Metadata res),
                          [ModeHybrid] @ [ModeVector]))) of
        Inl e \<Rightarrow> ([VectorRetrieve q], Inl e)
      | Inr (calls, vectorItems, totalCandidates, modesUsed) \<Rightarrow>
          (case (if length vectorItems > 0 then Graph r else None) of
             None \<Rightarrow> (calls, Inr (mergeResults r vectorItems [], modesUsed, totalCandidates))
           | Some g \<Rightarrow>
               (let graphQuery = q\<lparr>Entities := entityHints vectorItems\<rparr>
                in case g graphQuery of
                     Inl e \<Rightarrow> (calls @ [GraphRetrieve graphQuery], Inl e)
                   | Inr res \<Rightarrow>
                       (calls @ [GraphRetrieve graphQuery],
                        Inr (mergeResults r vectorItems (Items res),
                             modesUsed @ [ModeGraph],
                             totalCandidates + TotalCandidates (Result.Metadata res))))))"

definition retrieveGraphThenVector :: "hybrid_RetrieverConfig \<Rightarrow> Query \<Rightarrow> policyResult" where
  "retrieveGraphThenVector r q =
     (case (case Graph r of
              None \<Rightarrow> Inr ([], [], 0, [ModeHybrid])
            | Some g \<Rightarrow>
                (case g q of
                   Inl e \<Rightarrow> Inl e
                 | Inr res \<Rightarrow>
                     Inr ([GraphRetrieve q], Items res,
                          0 + TotalCandidates (Result.Metadata res),
                          [ModeHybrid] @ [ModeGraph]))) of
        Inl e \<Rightarrow> ([GraphRetrieve q], Inl e)
      | Inr (calls, graphItems, totalCandidates, modesUsed) \<Rightarrow>
          (case Vector r of
             None \<Rightarrow> (calls, Inr (mergeResults r [] graphItems, modesUsed, totalCandidates))
           | Some v \<Rightarrow>
               (case v q of
                  Inl e \<Rightarrow> (calls @ [VectorRetrieve q], Inl e)
                | Inr res \<Rightarrow>
                    (calls @ [VectorRetrieve q],
                     Inr (mergeResults r (Items res) graphItems,
                          modesUsed @ [ModeVector],
                          totalCandidates + TotalCandidates (Result.Metadata res))))))"

subsection \<open>Retrieve\<close>

definition runPolicy :: "hybrid_RetrieverConfig \<Rightarrow> Query \<Rightarrow> policyResult" where
  "runPolicy r q =
     (if Policy r = PolicyParallel then retrieveParallel r q
      else if Policy r = PolicyVectorThenGraph then retrieveVectorThenGraph r q
      else if Policy r = PolicyGraphThenVector then retrieveGraphThenVector r q
      else retrieveParallel r q)"

definition topKCut :: "Query \<Rightarrow> ContextItem list \<Rightarrow> ContextItem list" where
  "topKCut q its =
     (if TopK q > 0 \<and> int (length its) > TopK q then take (nat (TopK q)) its else its)"

text \<open>
  \<^verbatim>\<open>sort.Slice\<close> belongs to Go's library and is not stable: all the code can rely on is
  that it returns the same items ordered by the comparison it was given. It enters as
  the parameter \<open>sortSlice\<close>; \<open>sortsByScore\<close> is that contract for the comparison
  \<^verbatim>\<open>items[i].Score > items[j].Score\<close>. \<open>elapsed\<close> is the reading of the clock.
\<close>

definition sortsByScore :: "(ContextItem list \<Rightarrow> ContextItem list) \<Rightarrow> bool" where
  "sortsByScore sortSlice =
     (\<forall>xs. mset (sortSlice xs) = mset xs
          \<and> sorted_wrt (\<lambda>a b. Score a \<ge> Score b) (sortSlice xs))"

definition hybrid_Retrieve ::
  "(ContextItem list \<Rightarrow> ContextItem list) \<Rightarrow> hybrid_RetrieverConfig \<Rightarrow> int \<Rightarrow> Query
     \<Rightarrow> error + Result" where
  "hybrid_Retrieve sortSlice r elapsed q =
     (case snd (runPolicy r q) of
        Inl e \<Rightarrow> Inl e
      | Inr (its, modesUsed, totalCandidates) \<Rightarrow>
          (let its = (if DedupByID r then deduplicate its else its);
               its = sortSlice its;
               its = topKCut q its
           in case (case Reranker r of
                      None \<Rightarrow> Inr its
                    | Some rr \<Rightarrow> rr q its) of
                Inl e \<Rightarrow> Inl e
              | Inr its \<Rightarrow>
                  Inr \<lparr>Items = its, Query = q,
                       Metadata = \<lparr>TotalCandidates = totalCandidates, LatencyMS = elapsed,
                                    ModesUsed = modesUsed, CacheHit = False\<rparr>\<rparr>))"

section \<open>Auxiliary notions and example data\<close>

text \<open>
  An association list is \<open>keyed\<close> when it has one entry per key and every item sits
  under its own identifier, as the Go map \<^verbatim>\<open>merged\<close> does.
\<close>

definition keyed :: "merged \<Rightarrow> bool" where
  "keyed m = (distinct (map fst m) \<and> list_all (\<lambda>(k, item). ID item = k) m)"

definition exItem :: "string \<Rightarrow> real \<Rightarrow> ContextItem" where
  "exItem i s =
     \<lparr>ID = i, Content = [], Source = [], Score = s, Metadata = Map.empty,
      Provenance = \<lparr>Mode = [], Backend = [], GraphPath = [], SimilarityScore = 0,
                    RerankerScore = 0\<rparr>\<rparr>"

definition exConfig :: hybrid_RetrieverConfig where
  "exConfig = \<lparr>Vector = None, Graph = None, Policy = PolicyParallel,
               Weights = DefaultWeights, Reranker = None, DedupByID = True\<rparr>"

text \<open>
  An item is \<open>fromInput S\<close> when it is an item of \<open>S\<close> in every field but \<open>Score\<close> and
  \<open>Provenance\<close>.
\<close>

definition fromInput :: "ContextItem set \<Rightarrow> ContextItem \<Rightarrow> bool" where
  "fromInput S i = (\<exists>inp\<in>S. i = inp\<lparr>Score := Score i, Provenance := Provenance i\<rparr>)"

text \<open>
  The invariant of the loop of \<open>deduplicate\<close> after the items \<open>pre\<close> have been read:
  \<open>seen\<close> indexes \<open>result\<close> by identifier, and each item of \<open>result\<close> is the first item
  of \<open>pre\<close> with its identifier whose score no item of \<open>pre\<close> with that identifier
  exceeds.
\<close>

definition firstBest :: "ContextItem list \<Rightarrow> ContextItem \<Rightarrow> bool" where
  "firstBest pre out =
     (list_all (\<lambda>x. ID x \<noteq> ID out \<or> Score x \<le> Score out) pre
      \<and> find (\<lambda>x. ID x = ID out \<and> Score out \<le> Score x) pre = Some out)"

definition dedupInv ::
  "ContextItem list \<Rightarrow> (string \<rightharpoonup> nat) \<Rightarrow> ContextItem list \<Rightarrow> bool" where
  "dedupInv pre seen result =
     ((\<forall>k i. seen k = Some i \<longleftrightarrow> i < length result \<and> ID (result ! i) = k)
      \<and> ID ` set pre \<subseteq> dom seen
      \<and> list_all (firstBest pre) result)"

text \<open>A sort that meets the contract, and a query and two retrievers to run examples on.\<close>

definition exSort :: "ContextItem list \<Rightarrow> ContextItem list" where
  "exSort xs = sort_key (\<lambda>i. - Score i) xs"

definition exQuery :: Query where
  "exQuery = \<lparr>Text = ''q'', Embedding = [], Entities = [], Filters = Map.empty, MaxDepth = 0,
               TopK = 1, Modes = [], MinScore = 0, Metadata = Map.empty\<rparr>"

definition exResult :: "ContextItem list \<Rightarrow> Query \<Rightarrow> error + Result" where
  "exResult its q =
     Inr \<lparr>Items = its, Query = q,
          Metadata = \<lparr>TotalCandidates = int (length its), LatencyMS = 0, ModesUsed = [],
                       CacheHit = False\<rparr>\<rparr>"

definition exHybrid :: hybrid_RetrieverConfig where
  "exHybrid = exConfig\<lparr>Vector := Some (exResult [exItem ''x'' 0.8]),
                       Graph := Some (exResult [exItem ''x'' 0.6, exItem ''y'' 0.5])\<rparr>"

definition exFailing :: hybrid_RetrieverConfig where
  "exFailing = exConfig\<lparr>Vector := Some (\<lambda>q. Inl (Err ''vector down'')),
                        Graph := Some (\<lambda>q. Inl (Err ''graph down''))\<rparr>"

text \<open>
  The weight \<open>computePathScore\<close> uses for the hop from \<open>a\<close> to \<open>b\<close>: what it reads from
  \<^verbatim>\<open>edgeWeights\<close>, with 0.5 in place of 0.
\<close>

definition hopWeight :: "Edge list \<Rightarrow> string \<Rightarrow> string \<Rightarrow> real" where
  "hopWeight es a b =
     (let weight = (case buildEdgeWeights es (edgeKey a b) of Some w \<Rightarrow> w | None \<Rightarrow> 0)
      in if weight = 0 then 0.5 else weight)"

text \<open>
  The reading of the specification: the weight of the directed edge from \<open>a\<close> to \<open>b\<close> in
  the list of traversed edges, and 0.5 when the list has no such edge.
\<close>

definition specHopWeight :: "Edge list \<Rightarrow> string \<Rightarrow> string \<Rightarrow> real" where
  "specHopWeight es a b =
     (case find (\<lambda>e. From e = a \<and> To e = b) es of Some e \<Rightarrow> Weight e | None \<Rightarrow> 0.5)"

definition specPathScore :: "string list \<Rightarrow> Edge list \<Rightarrow> real" where
  "specPathScore p es = prod_list (map (\<lambda>(a, b). specHopWeight es a b * 0.8) (zip p (tl p)))"

definition exEdge :: "string \<Rightarrow> string \<Rightarrow> real \<Rightarrow> Edge" where
  "exEdge a b w = \<lparr>From = a, To = b, Type = ''relates_to'', Weight = w, Metadata = Map.empty\<rparr>"

definition exNode :: "string \<Rightarrow> Node" where
  "exNode i = \<lparr>Node.ID = i, Type = ''concept'', Content = i, Source = ''test'',
               Metadata = Map.empty\<rparr>"

definition exGraph :: "real \<Rightarrow> memory_KnowledgeGraph" where
  "exGraph w =
     AddEdge (AddNode (AddNode (NewKnowledgeGraph ''g'') (exNode ''A'')) (exNode ''B''))
       (exEdge ''A'' ''B'' w)"

definition exOpts :: "int \<Rightarrow> TraversalOptions" where
  "exOpts d = \<lparr>Depth = d, EdgeTypes = [], NodeTypes = [], MaxNodes = 10, MinWeight = 0\<rparr>"

text \<open>
  A store on top of the in-memory graph. \<^verbatim>\<open>FindNodes\<close> of the in-memory graph enumerates
  a Go map and is not modelled; the store of the examples finds no node.
\<close>

definition exStore :: "memory_KnowledgeGraph \<Rightarrow> graph_KnowledgeGraph" where
  "exStore kg = \<lparr>Traverse = memory_Traverse kg, FindNodes = (\<lambda>nodeType filters. Inr []),
                 Name = name kg\<rparr>"

definition exGraphRetriever :: "memory_KnowledgeGraph \<Rightarrow> graph_RetrieverConfig" where
  "exGraphRetriever kg =
     graph_NewRetriever
       \<lparr>graph_RetrieverConfig.Graph = exStore kg, DefaultDepth = 0, DefaultMaxNodes = 0,
        EdgeTypes = []\<rparr>"

definition exHint :: "string \<Rightarrow> EntityHint" where
  "exHint i = \<lparr>EntityHint.ID = i, Type = [], Name = i, Confidence = 0\<rparr>"

definition exDup :: "ContextItem list" where
  "exDup = [exItem ''x'' 0.5, exItem ''y'' 0.2, (exItem ''x'' 0.9)\<lparr>Content := ''first''\<rparr>,
            (exItem ''x'' 0.9)\<lparr>Content := ''second''\<rparr>, exItem ''y'' 0.1]"

text \<open>A graph retriever that answers with one item per entity hint of the query it is given.\<close>

definition exEcho :: Retriever where
  "exEcho q = exResult (map (\<lambda>e. exItem (EntityHint.ID e) 0.5) (Entities q)) q"

text \<open>The example graph with a second edge from A to B, of another type.\<close>

definition exGraph2 :: "real \<Rightarrow> real \<Rightarrow> memory_KnowledgeGraph" where
  "exGraph2 w1 w2 = AddEdge (exGraph w1) ((exEdge ''A'' ''B'' w2)\<lparr>Edge.Type := ''part_of''\<rparr>)"

text \<open>
  \<open>isPath kg p\<close>: each identifier of \<open>p\<close> but the first is the target of an edge stored
  under its predecessor. A node with such a path of \<open>n + 1\<close> identifiers from a start
  node is within \<open>n\<close> hops of the start set.
\<close>

fun isPath :: "memory_KnowledgeGraph \<Rightarrow> string list \<Rightarrow> bool" where
  "isPath kg (a # b # rest) = (b \<in> To ` set (edges kg a) \<and> isPath kg (b # rest))"
| "isPath kg p = True"

definition goodPath ::
  "memory_KnowledgeGraph \<Rightarrow> string list \<Rightarrow> string \<Rightarrow> string list \<Rightarrow> bool" where
  "goodPath kg startNodes k p =
     (p \<noteq> [] \<and> hd p \<in> set startNodes \<and> nodes kg (hd p) \<noteq> None \<and> last p = k \<and> isPath kg p)"

text \<open>Every node of a well-formed graph is stored under its own identifier.\<close>

definition wellFormed :: "memory_KnowledgeGraph \<Rightarrow> bool" where
  "wellFormed kg = (\<forall>k n. nodes kg k = Some n \<longrightarrow> Node.ID n = k)"

definition bfsInv ::
  "memory_KnowledgeGraph \<Rightarrow> TraversalOptions \<Rightarrow> string list \<Rightarrow> bfsState \<Rightarrow> bool" where
  "bfsInv kg opts startNodes st =
     (list_all (\<lambda>q. goodPath kg startNodes (nodeID q) (path q)
                    \<and> int (length (path q)) = depth q + 1 \<and> depth q \<le> Depth opts) (queue st)
      \<and> (\<forall>k p. paths st k = Some p \<longrightarrow>
             goodPath kg startNodes k p \<and> int (length p) \<le> Depth opts + 1)
      \<and> list_all (\<lambda>n. paths st (Node.ID n) \<noteq> None) (resultNodes st))"

section \<open>Score fusion (mergeResults)\<close>

lemma distinct_map_ne: "distinct (map f (x # xs)) \<Longrightarrow> y \<in> set xs \<Longrightarrow> f y \<noteq> f x"
  by (metis distinct.simps(2) imageI list.simps(9) set_map)

lemma keyed_Nil: "keyed []" by (simp add: keyed_def)

lemma keyed_update: "keyed m \<Longrightarrow> ID v = k \<Longrightarrow> keyed (AList.update k v m)"
  unfolding keyed_def
  by (induction m) (auto simp: AList.distinct_update AList.dom_update image_iff)

lemma keyed_map_of: "keyed m \<Longrightarrow> map_of m k = Some v \<Longrightarrow> ID v = k"
  unfolding keyed_def by (induction m) (auto split: if_splits)

lemma keyed_mergeVectorItem: "keyed m \<Longrightarrow> keyed (mergeVectorItem r m item)"
  by (auto simp: mergeVectorItem_def Let_def split: option.splits intro!: keyed_update dest: keyed_map_of)

lemma keyed_mergeGraphItem: "keyed m \<Longrightarrow> keyed (mergeGraphItem r m item)"
  by (auto simp: mergeGraphItem_def Let_def split: option.splits intro!: keyed_update dest: keyed_map_of)

lemma keyed_foldl_vector: "keyed m \<Longrightarrow> keyed (foldl (mergeVectorItem r) m xs)"
  by (induction xs arbitrary: m) (simp_all add: keyed_mergeVectorItem)

lemma keyed_foldl_graph: "keyed m \<Longrightarrow> keyed (foldl (mergeGraphItem r) m xs)"
  by (induction xs arbitrary: m) (simp_all add: keyed_mergeGraphItem)

lemma map_of_mergeVectorItem:
  "map_of (mergeVectorItem r m item) =
     (map_of m)(ID item \<mapsto>
        (case map_of m (ID item) of
           Some existing \<Rightarrow> existing\<lparr>Score := Score existing + Score item * Weights.Vector (Weights r)\<rparr>
         | None \<Rightarrow> item\<lparr>Score := Score item * Weights.Vector (Weights r)\<rparr>))"
  by (simp add: mergeVectorItem_def Let_def AList.update_conv' split: option.splits)

lemma map_of_mergeGraphItem:
  "map_of (mergeGraphItem r m item) =
     (map_of m)(ID item \<mapsto>
        (case map_of m (ID item) of
           Some existing \<Rightarrow>
             (if GraphPath (Provenance item) \<noteq> []
              then existing\<lparr>Score := Score existing + Score item * Weights.Graph (Weights r),
                     Provenance := (Provenance existing)\<lparr>GraphPath := GraphPath (Provenance item)\<rparr>\<rparr>
              else existing\<lparr>Score := Score existing + Score item * Weights.Graph (Weights r)\<rparr>)
         | None \<Rightarrow> item\<lparr>Score := Score item * Weights.Graph (Weights r)\<rparr>))"
  by (simp add: mergeGraphItem_def Let_def AList.update_conv' split: option.splits)

lemma find_None_distinct:
  "distinct (map f (x # xs)) \<Longrightarrow> find (\<lambda>i. f i = f x) xs = None"
  unfolding find_None_iff by (blast dest: distinct_map_ne)

lemma map_of_foldl_vector:
  "distinct (map ID xs) \<Longrightarrow> \<forall>x\<in>set xs. map_of m (ID x) = None \<Longrightarrow>
   map_of (foldl (mergeVectorItem r) m xs) k =
     (case find (\<lambda>i. ID i = k) xs of
        Some v \<Rightarrow> Some (v\<lparr>Score := Score v * Weights.Vector (Weights r)\<rparr>)
      | None \<Rightarrow> map_of m k)"
proof (induction xs arbitrary: m)
  case Nil
  then show ?case by simp
next
  case (Cons x xs)
  let ?m = "mergeVectorItem r m x"
  have ne: "\<forall>y\<in>set xs. ID y \<noteq> ID x"
    using Cons.prems(1) by (blast dest: distinct_map_ne)
  then have fresh: "\<forall>y\<in>set xs. map_of ?m (ID y) = None"
    using Cons.prems by (simp add: map_of_mergeVectorItem)
  have IH: "map_of (foldl (mergeVectorItem r) ?m xs) k =
     (case find (\<lambda>i. ID i = k) xs of
        Some v \<Rightarrow> Some (v\<lparr>Score := Score v * Weights.Vector (Weights r)\<rparr>)
      | None \<Rightarrow> map_of ?m k)"
    using Cons.IH [OF _ fresh] Cons.prems(1) by simp
  show ?case
  proof (cases "ID x = k")
    case True
    then have "find (\<lambda>i. ID i = k) xs = None"
      using find_None_distinct [OF Cons.prems(1)] by simp
    with True IH Cons.prems(2) show ?thesis
      by (simp add: map_of_mergeVectorItem)
  next
    case False
    then have "map_of ?m k = map_of m k"
      by (simp add: map_of_mergeVectorItem)
    with False IH show ?thesis by (simp split: option.splits)
  qed
qed

lemma map_of_foldl_graph:
  "distinct (map ID xs) \<Longrightarrow>
   map_of (foldl (mergeGraphItem r) m xs) k =
     (case find (\<lambda>i. ID i = k) xs of
        Some g \<Rightarrow> map_of (mergeGraphItem r m g) k
      | None \<Rightarrow> map_of m k)"
proof (induction xs arbitrary: m)
  case Nil
  then show ?case by simp
next
  case (Cons x xs)
  let ?m = "mergeGraphItem r m x"
  have IH: "map_of (foldl (mergeGraphItem r) ?m xs) k =
     (case find (\<lambda>i. ID i = k) xs of
        Some g \<Rightarrow> map_of (mergeGraphItem r ?m g) k
      | None \<Rightarrow> map_of ?m k)"
    using Cons.IH Cons.prems by simp
  show ?case
  proof (cases "ID x = k")
    case True
    then have "find (\<lambda>i. ID i = k) xs = None"
      using find_None_distinct [OF Cons.prems(1)] by simp
    with True IH show ?thesis by simp
  next
    case False
    have same: "map_of ?m k = map_of m k"
      using False by (simp add: map_of_mergeGraphItem)
    show ?thesis
    proof (cases "find (\<lambda>i. ID i = k) xs")
      case None
      with False IH same show ?thesis by simp
    next
      case (Some g)
      then have "ID g = k" by (auto simp: find_Some_iff)
      then have "map_of (mergeGraphItem r ?m g) k = map_of (mergeGraphItem r m g) k"
        using same by (simp add: map_of_mergeGraphItem [of r ?m] map_of_mergeGraphItem [of r m])
      with False IH Some show ?thesis by simp
    qed
  qed
qed

lemma map_of_merged:
  assumes "distinct (map ID vs)" and "distinct (map ID gs)"
  shows "map_of (foldl (mergeGraphItem r) (foldl (mergeVectorItem r) [] vs) gs) k =
     (case find (\<lambda>i. ID i = k) vs of
        None \<Rightarrow>
          (case find (\<lambda>i. ID i = k) gs of
             None \<Rightarrow> None
           | Some g \<Rightarrow> Some (g\<lparr>Score := Score g * Weights.Graph (Weights r)\<rparr>))
      | Some v \<Rightarrow>
          (case find (\<lambda>i. ID i = k) gs of
             None \<Rightarrow> Some (v\<lparr>Score := Score v * Weights.Vector (Weights r)\<rparr>)
           | Some g \<Rightarrow>
               Some (if GraphPath (Provenance g) \<noteq> []
                 then v\<lparr>Score := Score v * Weights.Vector (Weights r)
                              + Score g * Weights.Graph (Weights r),
                        Provenance := (Provenance v)\<lparr>GraphPath := GraphPath (Provenance g)\<rparr>\<rparr>
                 else v\<lparr>Score := Score v * Weights.Vector (Weights r)
                              + Score g * Weights.Graph (Weights r)\<rparr>)))"
proof -
  let ?m1 = "foldl (mergeVectorItem r) [] vs"
  have m1: "map_of ?m1 k =
     (case find (\<lambda>i. ID i = k) vs of
        Some v \<Rightarrow> Some (v\<lparr>Score := Score v * Weights.Vector (Weights r)\<rparr>)
      | None \<Rightarrow> None)"
    using map_of_foldl_vector [OF assms(1), of "[]" r k] by (simp split: option.splits)
  show ?thesis
  proof (cases "find (\<lambda>i. ID i = k) gs")
    case None
    then show ?thesis
      unfolding map_of_foldl_graph [OF assms(2)] by (simp add: m1 split: option.splits)
  next
    case (Some g)
    then have k: "ID g = k" by (auto simp: find_Some_iff)
    have "map_of (mergeGraphItem r ?m1 g) k =
       Some (case map_of ?m1 k of
           Some existing \<Rightarrow>
             (if GraphPath (Provenance g) \<noteq> []
              then existing\<lparr>Score := Score existing + Score g * Weights.Graph (Weights r),
                     Provenance := (Provenance existing)\<lparr>GraphPath := GraphPath (Provenance g)\<rparr>\<rparr>
              else existing\<lparr>Score := Score existing + Score g * Weights.Graph (Weights r)\<rparr>)
         | None \<Rightarrow> g\<lparr>Score := Score g * Weights.Graph (Weights r)\<rparr>)"
      unfolding map_of_mergeGraphItem k by simp
    then show ?thesis
      unfolding map_of_foldl_graph [OF assms(2)] Some m1
      by (simp split: option.splits)
  qed
qed

lemma find_by_ID:
  "distinct (map ID xs) \<Longrightarrow> x \<in> set xs \<Longrightarrow> find (\<lambda>i. ID i = ID x) xs = Some x"
proof (induction xs)
  case Nil
  then show ?case by simp
next
  case (Cons y ys)
  then show ?case by (auto dest: distinct_map_ne)
qed

lemma find_by_ID_None: "k \<notin> ID ` set xs \<Longrightarrow> find (\<lambda>i. ID i = k) xs = None"
  by (auto simp: find_None_iff)

lemma ID_setHybrid [simp]: "ID (setHybrid i) = ID i"
  by (simp add: setHybrid_def)

lemma Score_setHybrid [simp]: "Score (setHybrid i) = Score i"
  by (simp add: setHybrid_def)

lemma in_mergeResults:
  "map_of (foldl (mergeGraphItem r) (foldl (mergeVectorItem r) [] vs) gs) k = Some i \<Longrightarrow>
   setHybrid i \<in> set (mergeResults r vs gs)"
  by (force simp: mergeResults_def dest: map_of_SomeD)

lemma mergeResults_keyed:
  "keyed (foldl (mergeGraphItem r) (foldl (mergeVectorItem r) [] vs) gs)"
  by (intro keyed_foldl_graph keyed_foldl_vector keyed_Nil)

lemma map_ID_mergeResults:
  "map ID (mergeResults r vs gs) =
   map fst (foldl (mergeGraphItem r) (foldl (mergeVectorItem r) [] vs) gs)"
proof -
  have "keyed m \<Longrightarrow> map ID (map (\<lambda>(k, item). setHybrid item) m) = map fst m" for m
    unfolding keyed_def by (induction m) auto
  then show ?thesis
    using mergeResults_keyed [of r vs gs] by (simp add: mergeResults_def)
qed

lemma distinct_mergeResults: "distinct (map ID (mergeResults r vs gs))"
  using mergeResults_keyed [of r vs gs] by (simp add: map_ID_mergeResults keyed_def)

text \<open>
  Claim C1. Score fusion is additive on identifier collision. When no identifier occurs
  twice in the vector list and none occurs twice in the graph list, the output of
  \<open>mergeResults\<close> holds, for an identifier that a vector item \<open>v\<close> and a graph item \<open>g\<close>
  share, an item with score \<open>Score v * Weights.Vector + Score g * Weights.Graph\<close>; for a
  vector item whose identifier no graph item has, an item with score
  \<open>Score v * Weights.Vector\<close>; for a graph item whose identifier no vector item has, an
  item with score \<open>Score g * Weights.Graph\<close>. The output has one item per identifier, so
  these are the scores of the identifiers.
\<close>

theorem mergeResults_score_fusion:
  assumes "distinct (map ID vectorItems)" and "distinct (map ID graphItems)"
  shows "(\<forall>v\<in>set vectorItems. \<forall>g\<in>set graphItems. ID v = ID g \<longrightarrow>
            (\<exists>out\<in>set (mergeResults r vectorItems graphItems). ID out = ID v \<and>
               Score out = Score v * Weights.Vector (Weights r)
                         + Score g * Weights.Graph (Weights r)))
       \<and> (\<forall>v\<in>set vectorItems. ID v \<notin> ID ` set graphItems \<longrightarrow>
            (\<exists>out\<in>set (mergeResults r vectorItems graphItems). ID out = ID v \<and>
               Score out = Score v * Weights.Vector (Weights r)))
       \<and> (\<forall>g\<in>set graphItems. ID g \<notin> ID ` set vectorItems \<longrightarrow>
            (\<exists>out\<in>set (mergeResults r vectorItems graphItems). ID out = ID g \<and>
               Score out = Score g * Weights.Graph (Weights r)))
       \<and> distinct (map ID (mergeResults r vectorItems graphItems))"
proof (intro conjI ballI impI)
  fix v g
  assume vg: "v \<in> set vectorItems" "g \<in> set graphItems" "ID v = ID g"
  have "find (\<lambda>i. ID i = ID v) vectorItems = Some v"
    and "find (\<lambda>i. ID i = ID v) graphItems = Some g"
    using find_by_ID [OF assms(1) vg(1)] find_by_ID [OF assms(2) vg(2)] vg(3) by simp_all
  then obtain i where "map_of (foldl (mergeGraphItem r) (foldl (mergeVectorItem r) [] vectorItems)
      graphItems) (ID v) = Some i" "ID i = ID v"
    "Score i = Score v * Weights.Vector (Weights r) + Score g * Weights.Graph (Weights r)"
    using map_of_merged [OF assms, of r "ID v"] by (cases "GraphPath (Provenance g) = []") simp_all
  then show "\<exists>out\<in>set (mergeResults r vectorItems graphItems). ID out = ID v \<and>
      Score out = Score v * Weights.Vector (Weights r) + Score g * Weights.Graph (Weights r)"
    using in_mergeResults [of r vectorItems graphItems "ID v" i]
    by (intro bexI [of _ "setHybrid i"]) simp_all
next
  fix v
  assume v: "v \<in> set vectorItems" "ID v \<notin> ID ` set graphItems"
  have "find (\<lambda>i. ID i = ID v) vectorItems = Some v"
    and "find (\<lambda>i. ID i = ID v) graphItems = None"
    using find_by_ID [OF assms(1) v(1)] find_by_ID_None [OF v(2)] by simp_all
  then have "map_of (foldl (mergeGraphItem r) (foldl (mergeVectorItem r) [] vectorItems)
      graphItems) (ID v) = Some (v\<lparr>Score := Score v * Weights.Vector (Weights r)\<rparr>)"
    using map_of_merged [OF assms, of r "ID v"] by simp
  from in_mergeResults [OF this]
  show "\<exists>out\<in>set (mergeResults r vectorItems graphItems). ID out = ID v \<and>
      Score out = Score v * Weights.Vector (Weights r)"
    by (intro bexI [of _ "setHybrid (v\<lparr>Score := Score v * Weights.Vector (Weights r)\<rparr>)"]) simp_all
next
  fix g
  assume g: "g \<in> set graphItems" "ID g \<notin> ID ` set vectorItems"
  have "find (\<lambda>i. ID i = ID g) graphItems = Some g"
    and "find (\<lambda>i. ID i = ID g) vectorItems = None"
    using find_by_ID [OF assms(2) g(1)] find_by_ID_None [OF g(2)] by simp_all
  then have "map_of (foldl (mergeGraphItem r) (foldl (mergeVectorItem r) [] vectorItems)
      graphItems) (ID g) = Some (g\<lparr>Score := Score g * Weights.Graph (Weights r)\<rparr>)"
    using map_of_merged [OF assms, of r "ID g"] by simp
  from in_mergeResults [OF this]
  show "\<exists>out\<in>set (mergeResults r vectorItems graphItems). ID out = ID g \<and>
      Score out = Score g * Weights.Graph (Weights r)"
    by (intro bexI [of _ "setHybrid (g\<lparr>Score := Score g * Weights.Graph (Weights r)\<rparr>)"]) simp_all
next
  show "distinct (map ID (mergeResults r vectorItems graphItems))"
    by (rule distinct_mergeResults)
qed

theorem mergeResults_score_fusion_witness:
  "(\<exists>out\<in>set (mergeResults exConfig [exItem ''x'' 0.8] [exItem ''x'' 0.6, exItem ''y'' 0.5]).
      ID out = ''x'' \<and> Score out = 0.72)
   \<and> (\<exists>out\<in>set (mergeResults exConfig [exItem ''x'' 0.8] [exItem ''x'' 0.6, exItem ''y'' 0.5]).
      ID out = ''y'' \<and> Score out = 0.2)"
proof -
  have d1: "distinct (map ID [exItem ''x'' 0.8])"
    by simp
  have d2: "distinct (map ID [exItem ''x'' 0.6, exItem ''y'' 0.5])"
    by (simp add: exItem_def)
  show ?thesis
    using mergeResults_score_fusion [OF d1 d2, of exConfig]
    by (simp add: exItem_def exConfig_def DefaultWeights_def)
qed

section \<open>The frame of mergeResults\<close>

lemma fromInput_self: "i \<in> S \<Longrightarrow> fromInput S i"
  unfolding fromInput_def by (intro bexI [of _ i]) simp_all

lemma fromInput_Score: "fromInput S i \<Longrightarrow> fromInput S (i\<lparr>Score := s\<rparr>)"
proof -
  assume "fromInput S i"
  then obtain inp where inp: "inp \<in> S" "i = inp\<lparr>Score := Score i, Provenance := Provenance i\<rparr>"
    unfolding fromInput_def by blast
  have "i\<lparr>Score := s\<rparr> = inp\<lparr>Score := Score (i\<lparr>Score := s\<rparr>),
      Provenance := Provenance (i\<lparr>Score := s\<rparr>)\<rparr>"
    by (subst inp(2)) simp
  with inp(1) show ?thesis unfolding fromInput_def by blast
qed

lemma fromInput_Provenance: "fromInput S i \<Longrightarrow> fromInput S (i\<lparr>Provenance := p\<rparr>)"
proof -
  assume "fromInput S i"
  then obtain inp where inp: "inp \<in> S" "i = inp\<lparr>Score := Score i, Provenance := Provenance i\<rparr>"
    unfolding fromInput_def by blast
  have "i\<lparr>Provenance := p\<rparr> = inp\<lparr>Score := Score (i\<lparr>Provenance := p\<rparr>),
      Provenance := Provenance (i\<lparr>Provenance := p\<rparr>)\<rparr>"
    by (subst inp(2)) simp
  with inp(1) show ?thesis unfolding fromInput_def by blast
qed

lemma fromInput_mergeVectorItem:
  assumes "\<forall>k i. map_of m k = Some i \<longrightarrow> fromInput S i" and "item \<in> S"
  shows "\<forall>k i. map_of (mergeVectorItem r m item) k = Some i \<longrightarrow> fromInput S i"
  using assms
  by (auto simp: map_of_mergeVectorItem fromInput_Score fromInput_self
      split: option.splits if_splits)

lemma fromInput_mergeGraphItem:
  assumes "\<forall>k i. map_of m k = Some i \<longrightarrow> fromInput S i" and "item \<in> S"
  shows "\<forall>k i. map_of (mergeGraphItem r m item) k = Some i \<longrightarrow> fromInput S i"
proof (intro allI impI)
  fix k i
  assume i: "map_of (mergeGraphItem r m item) k = Some i"
  show "fromInput S i"
  proof (cases "k = ID item")
    case False
    with i assms(1) show ?thesis by (simp add: map_of_mergeGraphItem)
  next
    case True
    show ?thesis
    proof (cases "map_of m (ID item)")
      case None
      with True i have "i = item\<lparr>Score := Score item * Weights.Graph (Weights r)\<rparr>"
        by (simp add: map_of_mergeGraphItem)
      then show ?thesis using assms(2) by (simp add: fromInput_Score fromInput_self)
    next
      case (Some existing)
      then have ex: "fromInput S existing" using assms(1) by blast
      from True i Some have
        "i = existing\<lparr>Score := Score existing + Score item * Weights.Graph (Weights r),
               Provenance := (Provenance existing)\<lparr>GraphPath := GraphPath (Provenance item)\<rparr>\<rparr>
         \<or> i = existing\<lparr>Score := Score existing + Score item * Weights.Graph (Weights r)\<rparr>"
        by (simp add: map_of_mergeGraphItem split: if_splits)
      then show ?thesis
        using fromInput_Provenance [OF fromInput_Score [OF ex]] fromInput_Score [OF ex] by auto
    qed
  qed
qed

lemma fromInput_foldl_vector:
  "\<forall>k i. map_of m k = Some i \<longrightarrow> fromInput S i \<Longrightarrow> set xs \<subseteq> S \<Longrightarrow>
   \<forall>k i. map_of (foldl (mergeVectorItem r) m xs) k = Some i \<longrightarrow> fromInput S i"
proof (induction xs arbitrary: m)
  case Nil
  then show ?case by simp
next
  case (Cons x xs)
  have "\<forall>k i. map_of (mergeVectorItem r m x) k = Some i \<longrightarrow> fromInput S i"
    using Cons.prems by (intro fromInput_mergeVectorItem) auto
  from Cons.IH [OF this] Cons.prems(2) show ?case by simp
qed

lemma fromInput_foldl_graph:
  "\<forall>k i. map_of m k = Some i \<longrightarrow> fromInput S i \<Longrightarrow> set xs \<subseteq> S \<Longrightarrow>
   \<forall>k i. map_of (foldl (mergeGraphItem r) m xs) k = Some i \<longrightarrow> fromInput S i"
proof (induction xs arbitrary: m)
  case Nil
  then show ?case by simp
next
  case (Cons x xs)
  have "\<forall>k i. map_of (mergeGraphItem r m x) k = Some i \<longrightarrow> fromInput S i"
    using Cons.prems by (intro fromInput_mergeGraphItem) auto
  from Cons.IH [OF this] Cons.prems(2) show ?case by simp
qed

lemma mergeResults_members:
  "out \<in> set (mergeResults r vs gs) \<Longrightarrow>
   \<exists>k i. map_of (foldl (mergeGraphItem r) (foldl (mergeVectorItem r) [] vs) gs) k = Some i
        \<and> out = setHybrid i"
proof -
  assume "out \<in> set (mergeResults r vs gs)"
  then obtain k i where ki:
    "(k, i) \<in> set (foldl (mergeGraphItem r) (foldl (mergeVectorItem r) [] vs) gs)"
    "out = setHybrid i"
    by (auto simp: mergeResults_def)
  moreover have "distinct (map fst (foldl (mergeGraphItem r) (foldl (mergeVectorItem r) [] vs) gs))"
    using mergeResults_keyed [of r vs gs] by (simp add: keyed_def)
  ultimately show ?thesis by (metis map_of_eq_Some_iff)
qed

text \<open>
  Claim C9. Fusion frame condition. Every item in the output of \<open>mergeResults\<close> is an
  input item (of the vector list or of the graph list) in which only \<open>Score\<close> and
  \<open>Provenance\<close> may have changed: \<open>ID\<close>, \<open>Content\<close>, \<open>Source\<close> and \<open>Metadata\<close> are those of
  the input item. The mode of its provenance is "hybrid", whichever list it came from.
  No assumption is made on the input lists.
\<close>

theorem mergeResults_frame:
  "\<forall>out\<in>set (mergeResults r vectorItems graphItems).
     Mode (Provenance out) = ModeHybrid
     \<and> (\<exists>inp\<in>set vectorItems \<union> set graphItems.
           out = inp\<lparr>Score := Score out, Provenance := Provenance out\<rparr>)"
proof
  fix out
  assume "out \<in> set (mergeResults r vectorItems graphItems)"
  then obtain k i where ki:
    "map_of (foldl (mergeGraphItem r) (foldl (mergeVectorItem r) [] vectorItems) graphItems) k
       = Some i" "out = setHybrid i"
    using mergeResults_members by blast
  let ?S = "set vectorItems \<union> set graphItems"
  have "\<forall>k i. map_of (foldl (mergeVectorItem r) [] vectorItems) k = Some i \<longrightarrow> fromInput ?S i"
    by (intro fromInput_foldl_vector) simp_all
  then have "\<forall>k i. map_of (foldl (mergeGraphItem r) (foldl (mergeVectorItem r) [] vectorItems)
      graphItems) k = Some i \<longrightarrow> fromInput ?S i"
    by (intro fromInput_foldl_graph) simp_all
  with ki(1) have "fromInput ?S i" by blast
  then have "fromInput ?S out"
    unfolding ki(2) setHybrid_def by (rule fromInput_Provenance)
  moreover have "Mode (Provenance out) = ModeHybrid"
    by (simp add: ki(2) setHybrid_def)
  ultimately show "Mode (Provenance out) = ModeHybrid
     \<and> (\<exists>inp\<in>set vectorItems \<union> set graphItems.
           out = inp\<lparr>Score := Score out, Provenance := Provenance out\<rparr>)"
    by (simp add: fromInput_def)
qed

theorem mergeResults_frame_witness:
  "(exItem ''x'' 0.72)\<lparr>Provenance := (Provenance (exItem ''x'' 0.72))\<lparr>Mode := ''hybrid''\<rparr>\<rparr>
     \<in> set (mergeResults exConfig [exItem ''x'' 0.8] [exItem ''x'' 0.6, exItem ''y'' 0.5])
   \<and> (\<exists>inp\<in>set [exItem ''x'' 0.8] \<union> set [exItem ''x'' 0.6, exItem ''y'' 0.5].
         (exItem ''x'' 0.72)\<lparr>Provenance := (Provenance (exItem ''x'' 0.72))\<lparr>Mode := ''hybrid''\<rparr>\<rparr>
           = inp\<lparr>Score := 0.72, Provenance := (Provenance (exItem ''x'' 0.72))\<lparr>Mode := ''hybrid''\<rparr>\<rparr>)"
proof -
  let ?out = "(exItem ''x'' 0.72)\<lparr>Provenance := (Provenance (exItem ''x'' 0.72))\<lparr>Mode := ''hybrid''\<rparr>\<rparr>"
  have mem: "?out \<in> set (mergeResults exConfig [exItem ''x'' 0.8]
      [exItem ''x'' 0.6, exItem ''y'' 0.5])"
    by (simp add: mergeResults_def mergeVectorItem_def mergeGraphItem_def setHybrid_def
        exItem_def exConfig_def DefaultWeights_def ModeHybrid_def)
  from mergeResults_frame [rule_format, OF mem] mem show ?thesis
    by (simp add: exItem_def)
qed

section \<open>Deduplication\<close>

lemma find_append:
  "find P (xs @ ys) = (case find P xs of None \<Rightarrow> find P ys | Some x \<Rightarrow> Some x)"
  by (induction xs) simp_all

lemma firstBest_mem: "firstBest pre out \<Longrightarrow> out \<in> set pre"
  by (auto simp: firstBest_def find_Some_iff)

lemma firstBest_snoc_other:
  "firstBest pre out \<Longrightarrow> ID x \<noteq> ID out \<or> Score x \<le> Score out \<Longrightarrow>
   firstBest (pre @ [x]) out"
  by (auto simp: firstBest_def find_append)

lemma firstBest_snoc_new:
  assumes "list_all (\<lambda>y. ID y \<noteq> ID x \<or> Score y < Score x) pre"
  shows "firstBest (pre @ [x]) x"
proof -
  have "find (\<lambda>y. ID y = ID x \<and> Score x \<le> Score y) pre = None"
    using assms by (fastforce simp: find_None_iff list_all_iff)
  moreover have "list_all (\<lambda>y. ID y \<noteq> ID x \<or> Score y \<le> Score x) pre"
    using assms by (fastforce simp: list_all_iff)
  ultimately show ?thesis
    by (simp add: firstBest_def find_append)
qed

lemma dedupInv_distinct:
  assumes "dedupInv pre seen result"
  shows "distinct (map ID result)"
proof -
  have "i = j" if "i < length result" "j < length result" "ID (result ! i) = ID (result ! j)" for i j
  proof -
    have "seen (ID (result ! i)) = Some i" "seen (ID (result ! i)) = Some j"
      using assms that by (auto simp: dedupInv_def)
    then show ?thesis by simp
  qed
  then have "\<forall>i j. i < length result \<and> j < length result \<and> i \<noteq> j
      \<longrightarrow> ID (result ! i) \<noteq> ID (result ! j)"
    by blast
  then show ?thesis
    by (simp add: distinct_conv_nth)
qed

lemma dedupInv_step_keep:
  assumes inv: "dedupInv pre seen result" and s: "seen (ID x) = Some idx"
    and le: "\<not> Score x > Score (result ! idx)"
  shows "dedupInv (pre @ [x]) seen result"
proof -
  have idx: "idx < length result" "ID (result ! idx) = ID x"
    using inv s by (auto simp: dedupInv_def)
  have "firstBest (pre @ [x]) out" if mem: "out \<in> set result" for out
  proof -
    from mem obtain j where j: "j < length result" "result ! j = out"
      by (auto simp: in_set_conv_nth)
    have fb: "firstBest pre out"
      using inv mem by (auto simp: dedupInv_def list_all_iff)
    show ?thesis
    proof (cases "ID x = ID out")
      case False
      with fb show ?thesis by (intro firstBest_snoc_other) auto
    next
      case True
      then have "seen (ID x) = Some j" using inv j by (auto simp: dedupInv_def)
      with s j have "out = result ! idx" by simp
      with le fb show ?thesis by (intro firstBest_snoc_other) auto
    qed
  qed
  moreover have "ID x \<in> dom seen" using s by auto
  ultimately show ?thesis
    using inv by (auto simp: dedupInv_def list_all_iff)
qed

lemma dedupInv_step_replace:
  assumes inv: "dedupInv pre seen result" and s: "seen (ID x) = Some idx"
    and gt: "Score x > Score (result ! idx)"
  shows "dedupInv (pre @ [x]) seen (result[idx := x])"
proof -
  have idx: "idx < length result" "ID (result ! idx) = ID x"
    using inv s by (auto simp: dedupInv_def)
  have old: "firstBest pre (result ! idx)"
    using inv idx(1) by (auto simp: dedupInv_def list_all_iff)
  have "list_all (\<lambda>y. ID y \<noteq> ID x \<or> Score y < Score x) pre"
    using old gt idx(2) by (auto simp: firstBest_def list_all_iff)
  then have new: "firstBest (pre @ [x]) x"
    by (rule firstBest_snoc_new)
  have others: "firstBest (pre @ [x]) (result ! j)" if "j < length result" "j \<noteq> idx" for j
  proof -
    have "ID (result ! j) \<noteq> ID x"
    proof
      assume "ID (result ! j) = ID x"
      then have "seen (ID x) = Some j" using inv that(1) by (auto simp: dedupInv_def)
      with s that(2) show False by simp
    qed
    moreover have "firstBest pre (result ! j)"
      using inv that(1) by (auto simp: dedupInv_def list_all_iff)
    ultimately show ?thesis by (intro firstBest_snoc_other) auto
  qed
  have all: "list_all (firstBest (pre @ [x])) (result[idx := x])"
    unfolding list_all_length
  proof (intro allI impI)
    fix j
    assume "j < length (result[idx := x])"
    then show "firstBest (pre @ [x]) (result[idx := x] ! j)"
      using new others [of j] by (cases "j = idx") simp_all
  qed
  have ids: "ID (result[idx := x] ! i) = ID (result ! i)" if "i < length result" for i
    using that idx by (cases "i = idx") simp_all
  have "\<forall>k i. seen k = Some i \<longleftrightarrow> i < length (result[idx := x]) \<and> ID (result[idx := x] ! i) = k"
    using inv ids by (auto simp: dedupInv_def)
  moreover have "ID ` set (pre @ [x]) \<subseteq> dom seen"
    using inv s by (auto simp: dedupInv_def)
  ultimately show ?thesis
    using all by (simp add: dedupInv_def)
qed

lemma dedupInv_step_new:
  assumes inv: "dedupInv pre seen result" and s: "seen (ID x) = None"
  shows "dedupInv (pre @ [x]) (seen(ID x \<mapsto> length result)) (result @ [x])"
proof -
  have fresh: "ID y \<noteq> ID x" if "y \<in> set pre" for y
    using inv s that by (auto simp: dedupInv_def)
  then have new: "firstBest (pre @ [x]) x"
    by (intro firstBest_snoc_new) (auto simp: list_all_iff)
  have old: "firstBest (pre @ [x]) out" if "out \<in> set result" for out
  proof -
    have fb: "firstBest pre out"
      using inv that by (auto simp: dedupInv_def list_all_iff)
    then have "ID x \<noteq> ID out" using fresh firstBest_mem by metis
    with fb show ?thesis by (intro firstBest_snoc_other) auto
  qed
  have notin: "ID (result ! i) \<noteq> ID x" if "i < length result" for i
  proof
    assume "ID (result ! i) = ID x"
    then have "seen (ID x) = Some i" using inv that by (auto simp: dedupInv_def)
    with s show False by simp
  qed
  have "\<forall>k i. (seen(ID x \<mapsto> length result)) k = Some i
      \<longleftrightarrow> i < length (result @ [x]) \<and> ID ((result @ [x]) ! i) = k"
  proof (intro allI)
    fix k i
    show "(seen(ID x \<mapsto> length result)) k = Some i
      \<longleftrightarrow> i < length (result @ [x]) \<and> ID ((result @ [x]) ! i) = k"
    proof (cases "i < length result")
      case True
      then show ?thesis using inv notin [OF True]
        by (auto simp: dedupInv_def nth_append)
    next
      case False
      then show ?thesis using inv
        by (cases "i = length result") (auto simp: dedupInv_def nth_append)
    qed
  qed
  moreover have "ID ` set (pre @ [x]) \<subseteq> dom (seen(ID x \<mapsto> length result))"
    using inv by (auto simp: dedupInv_def)
  ultimately show ?thesis
    using new old by (simp add: dedupInv_def list_all_iff)
qed

lemma dedupLoop_inv:
  "dedupInv pre seen result \<Longrightarrow>
   \<exists>seen'. dedupInv (pre @ xs) seen' (dedupLoop seen result xs)"
proof (induction xs arbitrary: pre seen result)
  case Nil
  then show ?case by auto
next
  case (Cons x xs)
  have ap: "pre @ x # xs = (pre @ [x]) @ xs" by simp
  show ?case
  proof (cases "seen (ID x)")
    case None
    then have eq: "dedupLoop seen result (x # xs)
        = dedupLoop (seen(ID x \<mapsto> length result)) (result @ [x]) xs"
      by simp
    show ?thesis
      unfolding eq ap by (rule Cons.IH [OF dedupInv_step_new [OF Cons.prems None]])
  next
    case (Some idx)
    show ?thesis
    proof (cases "Score x > Score (result ! idx)")
      case True
      with Some have eq: "dedupLoop seen result (x # xs) = dedupLoop seen (result[idx := x]) xs"
        by simp
      show ?thesis
        unfolding eq ap by (rule Cons.IH [OF dedupInv_step_replace [OF Cons.prems Some True]])
    next
      case False
      with Some have eq: "dedupLoop seen result (x # xs) = dedupLoop seen result xs"
        by simp
      show ?thesis
        unfolding eq ap by (rule Cons.IH [OF dedupInv_step_keep [OF Cons.prems Some False]])
    qed
  qed
qed

lemma deduplicate_inv: "\<exists>seen. dedupInv xs seen (deduplicate xs)"
proof -
  have "dedupInv [] Map.empty []" by (simp add: dedupInv_def)
  from dedupLoop_inv [OF this, of xs] show ?thesis by (simp add: deduplicate_def)
qed

lemma distinct_deduplicate: "distinct (map ID (deduplicate xs))"
  using deduplicate_inv dedupInv_distinct by blast

lemma firstBest_deduplicate: "out \<in> set (deduplicate xs) \<Longrightarrow> firstBest xs out"
  using deduplicate_inv [of xs] by (auto simp: dedupInv_def list_all_iff)

lemma ID_deduplicate: "ID ` set (deduplicate xs) = ID ` set xs"
proof
  show "ID ` set (deduplicate xs) \<subseteq> ID ` set xs"
    using firstBest_deduplicate firstBest_mem by blast
  obtain seen where inv: "dedupInv xs seen (deduplicate xs)"
    using deduplicate_inv by blast
  show "ID ` set xs \<subseteq> ID ` set (deduplicate xs)"
  proof
    fix k assume "k \<in> ID ` set xs"
    then obtain i where "seen k = Some i" using inv by (auto simp: dedupInv_def)
    then have "i < length (deduplicate xs)" "ID (deduplicate xs ! i) = k"
      using inv by (auto simp: dedupInv_def)
    then show "k \<in> ID ` set (deduplicate xs)" by (metis imageI nth_mem)
  qed
qed

lemma firstBest_Max:
  assumes "firstBest xs out"
  shows "Score out = Max (Score ` {x \<in> set xs. ID x = ID out})"
proof -
  have "out \<in> set xs" using assms by (rule firstBest_mem)
  moreover have "\<forall>x\<in>set xs. ID x = ID out \<longrightarrow> Score x \<le> Score out"
    using assms by (auto simp: firstBest_def list_all_iff)
  ultimately show ?thesis
    by (intro Max_eqI [symmetric]) auto
qed

section \<open>Retrieve: deduplication, order and the top-K cut\<close>

lemma sortsByScore_exSort: "sortsByScore exSort"
proof -
  have "sorted_wrt (\<lambda>a b. Score b \<le> Score a) (sort_key (\<lambda>i. - Score i) xs)"
    for xs :: "ContextItem list"
    using sorted_sort_key [of "\<lambda>i. - Score i" xs] by (simp add: sorted_map)
  then show ?thesis
    by (simp add: sortsByScore_def exSort_def)
qed

lemma hybrid_Retrieve_plain:
  assumes "Reranker r = None" and "snd (runPolicy r q) = Inr (pre, modesUsed, totalCandidates)"
  shows "hybrid_Retrieve sortSlice r elapsed q =
     Inr \<lparr>Items = topKCut q (sortSlice (if DedupByID r then deduplicate pre else pre)),
          Query = q,
          Metadata = \<lparr>TotalCandidates = totalCandidates, LatencyMS = elapsed,
                       ModesUsed = modesUsed, CacheHit = False\<rparr>\<rparr>"
  using assms by (simp add: hybrid_Retrieve_def Let_def)

lemma set_topKCut: "set (topKCut q xs) \<subseteq> set xs"
  by (auto simp: topKCut_def dest: in_set_takeD)

lemma distinct_topKCut: "distinct (map f xs) \<Longrightarrow> distinct (map f (topKCut q xs))"
  by (simp add: topKCut_def take_map [symmetric])

lemma sortsByScore_set:
  assumes "sortsByScore sortSlice"
  shows "set (sortSlice xs) = set xs"
proof -
  have "mset (sortSlice xs) = mset xs"
    using assms by (simp add: sortsByScore_def)
  then show ?thesis by (rule mset_eq_setD)
qed

lemma sortsByScore_distinct:
  assumes "sortsByScore sortSlice" and "distinct (map f xs)"
  shows "distinct (map f (sortSlice xs))"
proof -
  have "mset (map f (sortSlice xs)) = mset (map f xs)"
    using assms(1) by (simp add: sortsByScore_def)
  from mset_eq_imp_distinct_iff [OF this] assms(2) show ?thesis
    by simp
qed

lemma dedupLoop_fresh:
  "distinct (map ID xs) \<Longrightarrow> \<forall>x\<in>set xs. seen (ID x) = None \<Longrightarrow>
   dedupLoop seen result xs = result @ xs"
proof (induction xs arbitrary: seen result)
  case Nil
  show ?case by simp
next
  case (Cons x xs)
  have ne: "\<forall>y\<in>set xs. ID y \<noteq> ID x"
    using Cons.prems(1) by (blast dest: distinct_map_ne)
  then have "\<forall>y\<in>set xs. (seen(ID x \<mapsto> length result)) (ID y) = None"
    using Cons.prems(2) by simp
  moreover have "distinct (map ID xs)"
    using Cons.prems(1) by simp
  ultimately have "dedupLoop (seen(ID x \<mapsto> length result)) (result @ [x]) xs
      = (result @ [x]) @ xs"
    by (rule Cons.IH [rotated])
  moreover have "dedupLoop seen result (x # xs)
      = dedupLoop (seen(ID x \<mapsto> length result)) (result @ [x]) xs"
    using Cons.prems(2) by simp
  ultimately show ?case by simp
qed

lemma deduplicate_distinct: "distinct (map ID xs) \<Longrightarrow> deduplicate xs = xs"
  by (simp add: deduplicate_def dedupLoop_fresh)

lemma runPolicy_distinct:
  "snd (runPolicy r q) = Inr (pre, modesUsed, totalCandidates) \<Longrightarrow> distinct (map ID pre)"
  by (auto simp: runPolicy_def retrieveParallel_def retrieveVectorThenGraph_def
      retrieveGraphThenVector_def Let_def distinct_mergeResults
      split: if_splits option.splits sum.splits)

text \<open>
  Claim C7. Deduplication. For any list \<open>xs\<close>, \<open>deduplicate xs\<close> has no two items with one
  identifier and has the identifiers of \<open>xs\<close>; every item of it has the maximum score
  among the items of \<open>xs\<close> with its identifier and is the first item of \<open>xs\<close> with this
  identifier and this score: a later item replaces the kept one only when its score is
  strictly higher. Sorting and the top-K cut keep items of \<open>deduplicate xs\<close> and keep the
  identifiers apart. With \<open>DedupByID\<close> on and no reranker, \<open>Retrieve\<close> succeeds whenever
  the policy does and returns these steps applied to the policy's list \<open>pre\<close>, so its
  items have distinct identifiers and each is the first item of \<open>pre\<close> with the maximum
  score of its identifier.
\<close>

theorem hybrid_Retrieve_dedup:
  assumes "sortsByScore sortSlice"
  shows "distinct (map ID (deduplicate xs))
       \<and> ID ` set (deduplicate xs) = ID ` set xs
       \<and> (\<forall>out\<in>set (deduplicate xs).
             Score out = Max (Score ` {x \<in> set xs. ID x = ID out})
             \<and> find (\<lambda>x. ID x = ID out \<and> Score out \<le> Score x) xs = Some out)
       \<and> distinct (map ID (topKCut q (sortSlice (deduplicate xs))))
       \<and> set (topKCut q (sortSlice (deduplicate xs))) \<subseteq> set (deduplicate xs)
       \<and> (DedupByID r \<and> Reranker r = None
            \<and> snd (runPolicy r q) = Inr (pre, modesUsed, totalCandidates) \<longrightarrow>
          (\<exists>res. hybrid_Retrieve sortSlice r elapsed q = Inr res
             \<and> Items res = topKCut q (sortSlice (deduplicate pre))
             \<and> distinct (map ID (Items res))
             \<and> (\<forall>out\<in>set (Items res).
                   Score out = Max (Score ` {x \<in> set pre. ID x = ID out})
                   \<and> find (\<lambda>x. ID x = ID out \<and> Score out \<le> Score x) pre = Some out)))"
proof -
  have best: "Score out = Max (Score ` {x \<in> set ys. ID x = ID out})
      \<and> find (\<lambda>x. ID x = ID out \<and> Score out \<le> Score x) ys = Some out"
    if mem: "out \<in> set (deduplicate ys)" for out ys
  proof -
    from mem have fb: "firstBest ys out" by (rule firstBest_deduplicate)
    then have "find (\<lambda>x. ID x = ID out \<and> Score out \<le> Score x) ys = Some out"
      by (simp add: firstBest_def)
    with firstBest_Max [OF fb] show ?thesis by (rule conjI)
  qed
  have dist: "distinct (map ID (topKCut q (sortSlice (deduplicate ys))))" for ys
  proof -
    have "distinct (map ID (sortSlice (deduplicate ys)))"
      using assms distinct_deduplicate by (rule sortsByScore_distinct)
    then show ?thesis by (rule distinct_topKCut)
  qed
  have sub: "set (topKCut q (sortSlice (deduplicate ys))) \<subseteq> set (deduplicate ys)" for ys
    using set_topKCut [of q "sortSlice (deduplicate ys)"]
    by (simp add: sortsByScore_set [OF assms])
  have A: "distinct (map ID (deduplicate xs))"
    by (rule distinct_deduplicate)
  have B: "ID ` set (deduplicate xs) = ID ` set xs"
    by (rule ID_deduplicate)
  have C: "\<forall>out\<in>set (deduplicate xs).
             Score out = Max (Score ` {x \<in> set xs. ID x = ID out})
             \<and> find (\<lambda>x. ID x = ID out \<and> Score out \<le> Score x) xs = Some out"
    using best by blast
  have D: "\<exists>res. hybrid_Retrieve sortSlice r elapsed q = Inr res
             \<and> Items res = topKCut q (sortSlice (deduplicate pre))
             \<and> distinct (map ID (Items res))
             \<and> (\<forall>out\<in>set (Items res).
                   Score out = Max (Score ` {x \<in> set pre. ID x = ID out})
                   \<and> find (\<lambda>x. ID x = ID out \<and> Score out \<le> Score x) pre = Some out)"
    if h: "DedupByID r \<and> Reranker r = None
            \<and> snd (runPolicy r q) = Inr (pre, modesUsed, totalCandidates)"
  proof -
    let ?its = "topKCut q (sortSlice (deduplicate pre))"
    let ?res = "\<lparr>Items = ?its, Query = q,
          Metadata = \<lparr>TotalCandidates = totalCandidates, LatencyMS = elapsed,
                       ModesUsed = modesUsed, CacheHit = False\<rparr>\<rparr>"
    have res: "hybrid_Retrieve sortSlice r elapsed q = Inr ?res"
      using hybrid_Retrieve_plain [of r q pre modesUsed totalCandidates sortSlice elapsed] h
      by simp
    have sel: "Items ?res = ?its" by simp
    have all: "\<forall>out\<in>set ?its. Score out = Max (Score ` {x \<in> set pre. ID x = ID out})
                   \<and> find (\<lambda>x. ID x = ID out \<and> Score out \<le> Score x) pre = Some out"
      using best [of _ pre] sub [of pre] by blast
    have "hybrid_Retrieve sortSlice r elapsed q = Inr ?res
        \<and> Items ?res = ?its
        \<and> distinct (map ID (Items ?res))
        \<and> (\<forall>out\<in>set (Items ?res). Score out = Max (Score ` {x \<in> set pre. ID x = ID out})
                   \<and> find (\<lambda>x. ID x = ID out \<and> Score out \<le> Score x) pre = Some out)"
      unfolding sel using res dist [of pre] all by blast
    then show ?thesis by (rule exI)
  qed
  from A B C dist [of xs] sub [of xs] D show ?thesis by blast
qed

lemma runPolicy_exHybrid:
  "snd (runPolicy exHybrid exQuery) =
     Inr (mergeResults exHybrid [exItem ''x'' 0.8] [exItem ''x'' 0.6, exItem ''y'' 0.5],
          [ModeHybrid, ModeVector, ModeGraph], 3)"
  by (simp add: runPolicy_def retrieveParallel_def runBranch_def exHybrid_def exConfig_def
      exResult_def Let_def)

theorem hybrid_Retrieve_dedup_witness:
  "deduplicate exDup = [(exItem ''x'' 0.9)\<lparr>Content := ''first''\<rparr>, exItem ''y'' 0.2]
   \<and> distinct (map ID (deduplicate exDup))
   \<and> find (\<lambda>x. ID x = ''x'' \<and> 0.9 \<le> Score x) exDup
       = Some ((exItem ''x'' 0.9)\<lparr>Content := ''first''\<rparr>)
   \<and> map (\<lambda>out. (ID out, Score out)) (topKCut exQuery (exSort (deduplicate exDup)))
       = [(''x'', 0.9)]
   \<and> (\<exists>res. hybrid_Retrieve exSort exHybrid 7 exQuery = Inr res
         \<and> map (\<lambda>out. (ID out, Score out)) (Items res) = [(''x'', 0.72)])"
proof -
  have h: "DedupByID exHybrid \<and> Reranker exHybrid = None
      \<and> snd (runPolicy exHybrid exQuery)
          = Inr (mergeResults exHybrid [exItem ''x'' 0.8] [exItem ''x'' 0.6, exItem ''y'' 0.5],
                 [ModeHybrid, ModeVector, ModeGraph], 3)"
    using runPolicy_exHybrid by (simp add: exHybrid_def exConfig_def)
  have ev: "map (\<lambda>out. (ID out, Score out))
      (topKCut exQuery (exSort (deduplicate
         (mergeResults exHybrid [exItem ''x'' 0.8] [exItem ''x'' 0.6, exItem ''y'' 0.5]))))
      = [(''x'', 0.72)]"
    by (simp add: mergeResults_def mergeVectorItem_def mergeGraphItem_def setHybrid_def
        exItem_def exHybrid_def exConfig_def DefaultWeights_def deduplicate_def exSort_def
        topKCut_def exQuery_def)
  have dd: "deduplicate exDup = [(exItem ''x'' 0.9)\<lparr>Content := ''first''\<rparr>, exItem ''y'' 0.2]"
    by (simp add: deduplicate_def exDup_def exItem_def)
  have mem: "(exItem ''x'' 0.9)\<lparr>Content := ''first''\<rparr> \<in> set (deduplicate exDup)"
    by (simp add: dd)
  have cut: "map (\<lambda>out. (ID out, Score out)) (topKCut exQuery (exSort (deduplicate exDup)))
       = [(''x'', 0.9)]"
    by (simp add: dd exSort_def topKCut_def exQuery_def exItem_def)
  note t = hybrid_Retrieve_dedup [OF sortsByScore_exSort, of exDup exQuery exHybrid
      "mergeResults exHybrid [exItem ''x'' 0.8] [exItem ''x'' 0.6, exItem ''y'' 0.5]"
      "[ModeHybrid, ModeVector, ModeGraph]" 3 7]
  from t have d: "distinct (map ID (deduplicate exDup))" by blast
  from t mem have "find (\<lambda>x. ID x = ID ((exItem ''x'' 0.9)\<lparr>Content := ''first''\<rparr>)
        \<and> Score ((exItem ''x'' 0.9)\<lparr>Content := ''first''\<rparr>) \<le> Score x) exDup
      = Some ((exItem ''x'' 0.9)\<lparr>Content := ''first''\<rparr>)"
    by blast
  then have f: "find (\<lambda>x. ID x = ''x'' \<and> 0.9 \<le> Score x) exDup
       = Some ((exItem ''x'' 0.9)\<lparr>Content := ''first''\<rparr>)"
    by (simp add: exItem_def)
  from t h obtain res where "hybrid_Retrieve exSort exHybrid 7 exQuery = Inr res"
    "Items res = topKCut exQuery (exSort (deduplicate
         (mergeResults exHybrid [exItem ''x'' 0.8] [exItem ''x'' 0.6, exItem ''y'' 0.5])))"
    by blast
  with ev have "\<exists>res. hybrid_Retrieve exSort exHybrid 7 exQuery = Inr res
         \<and> map (\<lambda>out. (ID out, Score out)) (Items res) = [(''x'', 0.72)]"
    by simp
  with dd d f cut show ?thesis by blast
qed

lemma topKCut_take: "TopK q > 0 \<Longrightarrow> topKCut q xs = take (nat (TopK q)) xs"
  by (simp add: topKCut_def)

lemma length_topKCut:
  "TopK q > 0 \<Longrightarrow> int (length (topKCut q xs)) = min (TopK q) (int (length xs))"
  by (simp add: topKCut_def)

text \<open>
  Claim C6. Top-K truncation. With a positive \<open>TopK = k\<close> and no reranker, \<open>Retrieve\<close>
  succeeds whenever the policy does, and returns \<open>min k n\<close> items, \<open>n\<close> being the number of
  items after the deduplication step (the policy's items themselves when \<open>DedupByID\<close> is
  off). The returned items and the omitted ones together are those \<open>n\<close> items, every
  returned item scores at least as high as every omitted one, and the returned items are
  in descending order of score.
\<close>

theorem hybrid_Retrieve_topK:
  assumes "sortsByScore sortSlice" and "Reranker r = None" and "TopK q > 0"
    and "snd (runPolicy r q) = Inr (pre, modesUsed, totalCandidates)"
  shows "\<exists>res omitted. hybrid_Retrieve sortSlice r elapsed q = Inr res
           \<and> int (length (Items res))
               = min (TopK q) (int (length (if DedupByID r then deduplicate pre else pre)))
           \<and> mset (Items res) + mset omitted
               = mset (if DedupByID r then deduplicate pre else pre)
           \<and> (\<forall>a\<in>set (Items res). \<forall>b\<in>set omitted. Score b \<le> Score a)
           \<and> sorted_wrt (\<lambda>a b. Score b \<le> Score a) (Items res)"
proof -
  let ?post = "if DedupByID r then deduplicate pre else pre"
  let ?s = "sortSlice ?post"
  let ?k = "nat (TopK q)"
  let ?res = "\<lparr>Items = topKCut q ?s, Query = q,
          Metadata = \<lparr>TotalCandidates = totalCandidates, LatencyMS = elapsed,
                       ModesUsed = modesUsed, CacheHit = False\<rparr>\<rparr>"
  have res: "hybrid_Retrieve sortSlice r elapsed q = Inr ?res"
    by (rule hybrid_Retrieve_plain [OF assms(2,4)])
  have sel: "Items ?res = take ?k ?s"
    by (simp add: topKCut_take [OF assms(3)])
  have perm: "mset ?s = mset ?post" and srt: "sorted_wrt (\<lambda>a b. Score b \<le> Score a) ?s"
    using assms(1) by (simp_all add: sortsByScore_def)
  have len: "length ?s = length ?post"
    using perm by (rule mset_eq_length)
  have "sorted_wrt (\<lambda>a b. Score b \<le> Score a) (take ?k ?s @ drop ?k ?s)"
    using srt by simp
  then have cross: "\<forall>a\<in>set (take ?k ?s). \<forall>b\<in>set (drop ?k ?s). Score b \<le> Score a"
    and desc: "sorted_wrt (\<lambda>a b. Score b \<le> Score a) (take ?k ?s)"
    unfolding sorted_wrt_append by blast+
  have n: "int (length (take ?k ?s)) = min (TopK q) (int (length ?post))"
    using assms(3) len by simp
  have split: "mset (take ?k ?s) + mset (drop ?k ?s) = mset ?post"
    using perm by (metis append_take_drop_id mset_append)
  have "hybrid_Retrieve sortSlice r elapsed q = Inr ?res
      \<and> int (length (Items ?res)) = min (TopK q) (int (length ?post))
      \<and> mset (Items ?res) + mset (drop ?k ?s) = mset ?post
      \<and> (\<forall>a\<in>set (Items ?res). \<forall>b\<in>set (drop ?k ?s). Score b \<le> Score a)
      \<and> sorted_wrt (\<lambda>a b. Score b \<le> Score a) (Items ?res)"
    unfolding sel using res n split cross desc by blast
  then show ?thesis by blast
qed

theorem hybrid_Retrieve_topK_witness:
  "\<exists>res. hybrid_Retrieve exSort exHybrid 7 exQuery = Inr res \<and> int (length (Items res)) = 1"
proof -
  have h2: "Reranker exHybrid = None" and h3: "TopK exQuery > 0"
    by (simp_all add: exHybrid_def exConfig_def exQuery_def)
  have ev: "length (deduplicate
         (mergeResults exHybrid [exItem ''x'' 0.8] [exItem ''x'' 0.6, exItem ''y'' 0.5])) = 2"
    by (simp add: mergeResults_def mergeVectorItem_def mergeGraphItem_def setHybrid_def
        exItem_def exHybrid_def exConfig_def DefaultWeights_def deduplicate_def)
  have d: "DedupByID exHybrid"
    by (simp add: exHybrid_def exConfig_def)
  from hybrid_Retrieve_topK [OF sortsByScore_exSort h2 h3 runPolicy_exHybrid, of 7]
  show ?thesis
    using ev d by (auto simp: exQuery_def)
qed

section \<open>The parallel policy\<close>

text \<open>
  Claim C5. Parallel policy, fail-fast with vector precedence. Under the parallel policy
  (the policy named \<^verbatim>\<open>parallel\<close>; the \<^verbatim>\<open>default\<close> branch of the switch runs the same code)
  both configured retrievers are called with the query. If the vector retriever returned
  an error, \<open>Retrieve\<close> returns that error, whatever the graph retriever returned; if the
  vector branch brought no error and the graph retriever returned one, \<open>Retrieve\<close>
  returns the graph error. An outcome is an error or a result (the Go code returns a nil
  result with the error), so no item list comes with an error.
\<close>

theorem hybrid_Retrieve_parallel_errors:
  assumes "Policy r = PolicyParallel"
  shows "(\<forall>v e. Vector r = Some v \<and> v q = Inl e
            \<longrightarrow> hybrid_Retrieve sortSlice r elapsed q = Inl e)
       \<and> (\<forall>g e. (Vector r = None \<or> (\<exists>v res. Vector r = Some v \<and> v q = Inr res))
              \<and> Graph r = Some g \<and> g q = Inl e
            \<longrightarrow> hybrid_Retrieve sortSlice r elapsed q = Inl e)
       \<and> fst (runPolicy r q)
           = (if Vector r = None then [] else [VectorRetrieve q])
           @ (if Graph r = None then [] else [GraphRetrieve q])"
proof (intro conjI allI impI)
  fix v e
  assume "Vector r = Some v \<and> v q = Inl e"
  then show "hybrid_Retrieve sortSlice r elapsed q = Inl e"
    using assms
    by (simp add: hybrid_Retrieve_def runPolicy_def retrieveParallel_def runBranch_def Let_def)
next
  fix g e
  assume a: "(Vector r = None \<or> (\<exists>v res. Vector r = Some v \<and> v q = Inr res))
      \<and> Graph r = Some g \<and> g q = Inl e"
  then have "err (runBranch (Vector r) q) = None"
    by (auto simp: runBranch_def)
  moreover have "err (runBranch (Graph r) q) = Some e"
    using a by (simp add: runBranch_def)
  ultimately show "hybrid_Retrieve sortSlice r elapsed q = Inl e"
    using assms
    by (simp add: hybrid_Retrieve_def runPolicy_def retrieveParallel_def Let_def)
next
  show "fst (runPolicy r q)
      = (if Vector r = None then [] else [VectorRetrieve q])
      @ (if Graph r = None then [] else [GraphRetrieve q])"
    using assms by (simp add: runPolicy_def retrieveParallel_def Let_def)
qed

theorem hybrid_Retrieve_parallel_errors_witness:
  "hybrid_Retrieve exSort exFailing 7 exQuery = Inl (Err ''vector down'')
   \<and> hybrid_Retrieve exSort (exFailing\<lparr>Vector := None\<rparr>) 7 exQuery = Inl (Err ''graph down'')"
proof -
  have p: "Policy exFailing = PolicyParallel" "Policy (exFailing\<lparr>Vector := None\<rparr>) = PolicyParallel"
    by (simp_all add: exFailing_def exConfig_def)
  from hybrid_Retrieve_parallel_errors [OF p(1), of exQuery exSort 7]
    hybrid_Retrieve_parallel_errors [OF p(2), of exQuery exSort 7]
  show ?thesis
    by (simp add: exFailing_def)
qed

section \<open>The vector-then-graph policy\<close>

text \<open>
  Claim C4. VectorThenGraph chaining. Under the policy \<^verbatim>\<open>vector_then_graph\<close> with both
  retrievers configured, the vector retriever is applied to the query first. If it
  returns a non-empty item list, the outcome of the policy is built from the graph
  retriever's answer to one query: the original query with \<open>Entities\<close> replaced by one
  \<^verbatim>\<open>EntityHint{ID: item.ID, Name: item.ID}\<close> per vector item, in order, every other
  field unchanged; the graph retriever's error is the outcome, and otherwise its items
  are merged with the vector items. If the vector retriever returns no items, the
  outcome is the merge of the vector items alone and does not depend on the graph
  retriever; if it returns an error, that error is the outcome. The list of calls says
  the same: the vector call, followed by the one graph call exactly in the first case.
\<close>

theorem retrieveVectorThenGraph_calls:
  assumes "Policy r = PolicyVectorThenGraph" and "Vector r = Some v" and "Graph r = Some g"
  shows "snd (runPolicy r q) =
     (case v q of
        Inl e \<Rightarrow> Inl e
      | Inr vres \<Rightarrow>
          if Items vres = []
          then Inr (mergeResults r (Items vres) [], [ModeHybrid, ModeVector],
                    TotalCandidates (Result.Metadata vres))
          else
            (case g (q\<lparr>Entities :=
                        map (\<lambda>item. \<lparr>EntityHint.ID = ID item, Type = [], Name = ID item,
                                      Confidence = 0\<rparr>) (Items vres)\<rparr>) of
               Inl e \<Rightarrow> Inl e
             | Inr gres \<Rightarrow>
                 Inr (mergeResults r (Items vres) (Items gres),
                      [ModeHybrid, ModeVector, ModeGraph],
                      TotalCandidates (Result.Metadata vres)
                        + TotalCandidates (Result.Metadata gres))))
   \<and> fst (runPolicy r q) =
     VectorRetrieve q #
       (case v q of
          Inl e \<Rightarrow> []
        | Inr res \<Rightarrow>
            if Items res = [] then []
            else [GraphRetrieve
                    (q\<lparr>Entities :=
                         map (\<lambda>item. \<lparr>EntityHint.ID = ID item, Type = [], Name = ID item,
                                       Confidence = 0\<rparr>) (Items res)\<rparr>)])"
proof -
  have "PolicyVectorThenGraph \<noteq> PolicyParallel"
    by (simp add: PolicyVectorThenGraph_def PolicyParallel_def)
  then have run: "runPolicy r q = retrieveVectorThenGraph r q"
    using assms(1) by (simp add: runPolicy_def)
  show ?thesis
  proof (cases "v q")
    case (Inl e)
    then show ?thesis
      unfolding run using assms(2) by (simp add: retrieveVectorThenGraph_def)
  next
    case (Inr res)
    show ?thesis
    proof (cases "Items res = []")
      case True
      with Inr show ?thesis
        unfolding run using assms(2,3)
        by (simp add: retrieveVectorThenGraph_def)
    next
      case False
      with Inr show ?thesis
        unfolding run using assms(2,3)
        by (simp add: retrieveVectorThenGraph_def entityHints_def Let_def split: sum.splits)
    qed
  qed
qed

theorem retrieveVectorThenGraph_calls_witness:
  "(case snd (runPolicy (exHybrid\<lparr>Policy := PolicyVectorThenGraph, Graph := Some exEcho\<rparr>) exQuery) of
      Inl e \<Rightarrow> []
    | Inr (its, modesUsed, totalCandidates) \<Rightarrow> map (\<lambda>i. (ID i, Score i)) its)
     = [(''x'', 0.68)]
   \<and> fst (runPolicy (exHybrid\<lparr>Policy := PolicyVectorThenGraph, Graph := Some exEcho\<rparr>) exQuery) =
     [VectorRetrieve exQuery,
      GraphRetrieve (exQuery\<lparr>Entities :=
        [\<lparr>EntityHint.ID = ''x'', Type = [], Name = ''x'', Confidence = 0\<rparr>]\<rparr>)]"
proof -
  let ?r = "exHybrid\<lparr>Policy := PolicyVectorThenGraph, Graph := Some exEcho\<rparr>"
  have h: "Policy ?r = PolicyVectorThenGraph"
    "Vector ?r = Some (exResult [exItem ''x'' 0.8])"
    "Graph ?r = Some exEcho"
    by (simp_all add: exHybrid_def exConfig_def)
  from retrieveVectorThenGraph_calls [OF h, of exQuery] show ?thesis
    by (simp add: exResult_def exItem_def exEcho_def exQuery_def exHybrid_def exConfig_def
        DefaultWeights_def mergeResults_def mergeVectorItem_def mergeGraphItem_def
        setHybrid_def)
qed

section \<open>Path scores\<close>

lemma buildEdgeWeights_snoc:
  "buildEdgeWeights (es @ [e]) = (buildEdgeWeights es)(edgeKey (From e) (To e) \<mapsto> Weight e)"
  by (simp add: buildEdgeWeights_def)

lemma buildEdgeWeights_last:
  "buildEdgeWeights es k =
     map_option Weight (find (\<lambda>e. edgeKey (From e) (To e) = k) (rev es))"
proof (induction es rule: rev_induct)
  case Nil
  show ?case by (simp add: buildEdgeWeights_def)
next
  case (snoc e es)
  then show ?case by (simp add: buildEdgeWeights_snoc)
qed

lemma hopWeight_last:
  "hopWeight es a b =
     (case find (\<lambda>e. edgeKey (From e) (To e) = edgeKey a b) (rev es) of
        None \<Rightarrow> 0.5
      | Some e \<Rightarrow> if Weight e = 0 then 0.5 else Weight e)"
  by (simp add: hopWeight_def buildEdgeWeights_last split: option.splits)

lemma hopStep_hopWeight:
  "hopStep (buildEdgeWeights es) p score i = score * (hopWeight es (p ! i) (p ! (i + 1)) * 0.8)"
  by (simp add: hopStep_def hopWeight_def Let_def)

lemma foldl_times: "foldl (\<lambda>s i. s * f i) (c :: real) is = c * prod_list (map f is)"
  by (induction "is" arbitrary: c) (simp_all add: mult.assoc)

lemma hops_zip:
  "map (\<lambda>i. g (p ! i) (p ! (i + 1))) [0 ..< length p - 1] = map (\<lambda>(a, b). g a b) (zip p (tl p))"
  by (rule nth_equalityI) (simp_all add: nth_tl)

lemma computePathScore_prod:
  "computePathScore p es = prod_list (map (\<lambda>(a, b). hopWeight es a b * 0.8) (zip p (tl p)))"
proof (cases "p = []")
  case True
  then show ?thesis by (simp add: computePathScore_def)
next
  case False
  have "computePathScore p es
      = foldl (\<lambda>s i. s * (hopWeight es (p ! i) (p ! (i + 1)) * 0.8)) 1 [0 ..< length p - 1]"
    using False by (simp add: computePathScore_def hopStep_hopWeight [abs_def])
  also have "\<dots> = prod_list (map (\<lambda>i. hopWeight es (p ! i) (p ! (i + 1)) * 0.8)
      [0 ..< length p - 1])"
    using foldl_times [of "\<lambda>i. hopWeight es (p ! i) (p ! (i + 1)) * 0.8" 1 "[0 ..< length p - 1]"]
    by (simp only: mult_1)
  also have "\<dots> = prod_list (map (\<lambda>(a, b). hopWeight es a b * 0.8) (zip p (tl p)))"
    by (simp only: hops_zip [of "\<lambda>a b. hopWeight es a b * 0.8" p])
  finally show ?thesis .
qed

lemma computePathScore_snoc:
  "computePathScore (p @ [a, b]) es = computePathScore (p @ [a]) es * (hopWeight es a b * 0.8)"
proof -
  have "zip (p @ [a, b]) (tl (p @ [a, b])) = zip (p @ [a]) (tl (p @ [a])) @ [(a, b)]"
    by (induction p rule: induct_list012) simp_all
  then show ?thesis
    by (simp add: computePathScore_prod)
qed

lemmas ex_defs = exGraph_def exNode_def exEdge_def exOpts_def AddEdge_def AddNode_def
  NewKnowledgeGraph_def memory_Traverse_def bfsCond_def bfsIter_def expand_def
  traverseEdge_def Let_def

lemma convertNode_items:
  "it \<in> set (foldl (convertNode r q result) acc ns) \<Longrightarrow>
   it \<in> set acc
   \<or> (\<exists>n\<in>set ns. \<exists>p. p = (case Paths result (Node.ID n) of Some p \<Rightarrow> p | None \<Rightarrow> [])
          \<and> it = nodeItem r n p (computePathScore p (Edges result)))"
proof (induction ns arbitrary: acc)
  case Nil
  then show ?case by simp
next
  case (Cons n ns)
  from Cons.IH [OF Cons.prems [simplified]] show ?case
    by (auto simp: convertNode_def Let_def split: if_splits)
qed

lemma graph_Retrieve_cases:
  assumes "graph_Retrieve r elapsed q = Inr res"
  shows "Items res = []
       \<or> (\<exists>startNodes opts result.
             Traverse (graph_RetrieverConfig.Graph r) startNodes opts = Inr result
             \<and> Items res = foldl (convertNode r q result) [] (Nodes result))"
  using assms
  by (auto simp: graph_Retrieve_def Let_def split: sum.splits if_splits) blast+

lemma graph_Retrieve_items:
  assumes "graph_Retrieve r elapsed q = Inr res" and "it \<in> set (Items res)"
  shows "\<exists>startNodes opts result.
           Traverse (graph_RetrieverConfig.Graph r) startNodes opts = Inr result
           \<and> (\<exists>n\<in>set (Nodes result). \<exists>p.
                  p = (case Paths result (Node.ID n) of Some p \<Rightarrow> p | None \<Rightarrow> [])
                  \<and> it = nodeItem r n p (computePathScore p (Edges result)))"
proof -
  from graph_Retrieve_cases [OF assms(1)] assms(2)
  obtain startNodes opts result where
    t: "Traverse (graph_RetrieverConfig.Graph r) startNodes opts = Inr result"
    and its: "Items res = foldl (convertNode r q result) [] (Nodes result)"
    by auto
  from assms(2) have "it \<in> set (foldl (convertNode r q result) [] (Nodes result))"
    by (simp add: its)
  from convertNode_items [OF this] t show ?thesis by auto
qed

lemma zip_tl_short: "length p \<le> 1 \<Longrightarrow> zip p (tl p) = []"
  by (cases p) simp_all

text \<open>
  Claim C2, as the specification words it, fails on an edge whose stored weight is 0:
  the edge is in the list of traversed edges, so the product of the claim is 0, and the
  code scores the node 0.5 * 0.8. The graph has the nodes A and B and the edge from A to
  B with weight 0; the retriever starts from A.
\<close>

theorem graph_Retrieve_scores_counterexample:
  "memory_Traverse (exGraph 0) [''A'']
      \<lparr>Depth = 2, EdgeTypes = [], NodeTypes = [], MaxNodes = 20, MinWeight = 0\<rparr>
     = Inr \<lparr>Nodes = [exNode ''A'', exNode ''B''], Edges = [exEdge ''A'' ''B'' 0],
            Paths = [''A'' \<mapsto> [''A''], ''B'' \<mapsto> [''A'', ''B'']]\<rparr>
   \<and> map (\<lambda>i. (ID i, Score i))
        (case graph_Retrieve (exGraphRetriever (exGraph 0)) 3
                (exQuery\<lparr>Entities := [exHint ''A''], TopK := 0\<rparr>) of
           Inr res \<Rightarrow> Items res | Inl e \<Rightarrow> [])
     = [(''A'', 1), (''B'', 0.4)]
   \<and> specPathScore [''A'', ''B''] [exEdge ''A'' ''B'' 0] = 0"
  by (simp add: graph_Retrieve_def exGraphRetriever_def graph_NewRetriever_def exStore_def
      exQuery_def exHint_def ex_defs bfs.simps convertNode_def nodeItem_def
      computePathScore_def hopStep_def buildEdgeWeights_def edgeKey_def
      specPathScore_def specHopWeight_def)

text \<open>
  Claim C2, amended. Every item \<open>Retrieve\<close> returns is built from a node of the traversal
  result and carries the node's recorded path; its score is the product, over the hops
  of that path, of \<open>w * 0.8\<close>, and is 1 for a path of one node (a start node). For the hop
  from \<open>a\<close> to \<open>b\<close>, \<open>w\<close> is the weight of the last edge in the list of traversed edges
  whose key \<^verbatim>\<open>From + "->" + To\<close> is the key of the hop; it is 0.5 when there is no such
  edge and also when that weight is exactly 0.
\<close>

theorem graph_Retrieve_scores:
  assumes "graph_Retrieve r elapsed q = Inr res" and "it \<in> set (Items res)"
  shows "\<exists>startNodes opts result.
           Traverse (graph_RetrieverConfig.Graph r) startNodes opts = Inr result
           \<and> ID it \<in> Node.ID ` set (Nodes result)
           \<and> GraphPath (Provenance it)
               = (case Paths result (ID it) of Some p \<Rightarrow> p | None \<Rightarrow> [])
           \<and> Score it
               = prod_list (map (\<lambda>(a, b). hopWeight (Edges result) a b * 0.8)
                   (zip (GraphPath (Provenance it)) (tl (GraphPath (Provenance it)))))
           \<and> (length (GraphPath (Provenance it)) \<le> 1 \<longrightarrow> Score it = 1)
           \<and> (\<forall>a b. hopWeight (Edges result) a b
                 = (case find (\<lambda>e. edgeKey (From e) (To e) = edgeKey a b) (rev (Edges result)) of
                      None \<Rightarrow> 0.5
                    | Some e \<Rightarrow> if Weight e = 0 then 0.5 else Weight e))"
proof -
  from graph_Retrieve_items [OF assms]
  obtain startNodes opts result n where
    t: "Traverse (graph_RetrieverConfig.Graph r) startNodes opts = Inr result"
    and n: "n \<in> set (Nodes result)"
    and it: "it = nodeItem r n (case Paths result (Node.ID n) of Some p \<Rightarrow> p | None \<Rightarrow> [])
        (computePathScore (case Paths result (Node.ID n) of Some p \<Rightarrow> p | None \<Rightarrow> [])
           (Edges result))"
    by blast
  let ?p = "case Paths result (Node.ID n) of Some p \<Rightarrow> p | None \<Rightarrow> []"
  have id: "ID it = Node.ID n" and gp: "GraphPath (Provenance it) = ?p"
    and sc: "Score it = computePathScore ?p (Edges result)"
    by (simp_all add: it nodeItem_def)
  have one: "Score it = 1" if "length ?p \<le> 1"
    unfolding sc computePathScore_prod zip_tl_short [OF that] by simp
  have "Traverse (graph_RetrieverConfig.Graph r) startNodes opts = Inr result
      \<and> ID it \<in> Node.ID ` set (Nodes result)
      \<and> GraphPath (Provenance it)
          = (case Paths result (ID it) of Some p \<Rightarrow> p | None \<Rightarrow> [])
      \<and> Score it
          = prod_list (map (\<lambda>(a, b). hopWeight (Edges result) a b * 0.8)
              (zip (GraphPath (Provenance it)) (tl (GraphPath (Provenance it)))))
      \<and> (length (GraphPath (Provenance it)) \<le> 1 \<longrightarrow> Score it = 1)
      \<and> (\<forall>a b. hopWeight (Edges result) a b
            = (case find (\<lambda>e. edgeKey (From e) (To e) = edgeKey a b) (rev (Edges result)) of
                 None \<Rightarrow> 0.5
               | Some e \<Rightarrow> if Weight e = 0 then 0.5 else Weight e))"
    unfolding gp id using t n one sc
    by (simp add: computePathScore_prod hopWeight_last)
  then show ?thesis by blast
qed

theorem graph_Retrieve_scores_witness:
  "\<exists>res it. graph_Retrieve (exGraphRetriever (exGraph 0.9)) 3
               (exQuery\<lparr>Entities := [exHint ''A''], TopK := 0\<rparr>) = Inr res
      \<and> it \<in> set (Items res) \<and> ID it = ''A'' \<and> Score it = 1"
proof -
  let ?q = "exQuery\<lparr>Entities := [exHint ''A''], TopK := 0\<rparr>"
  have "\<exists>res. graph_Retrieve (exGraphRetriever (exGraph 0.9)) 3 ?q = Inr res
      \<and> map (\<lambda>i. (ID i, GraphPath (Provenance i))) (Items res)
          = [(''A'', [''A'']), (''B'', [''A'', ''B''])]"
    by (simp add: graph_Retrieve_def exGraphRetriever_def graph_NewRetriever_def exStore_def
        exQuery_def exHint_def ex_defs bfs.simps convertNode_def nodeItem_def
        computePathScore_def hopStep_def buildEdgeWeights_def edgeKey_def)
  then obtain res where res: "graph_Retrieve (exGraphRetriever (exGraph 0.9)) 3 ?q = Inr res"
    and its: "map (\<lambda>i. (ID i, GraphPath (Provenance i))) (Items res)
          = [(''A'', [''A'']), (''B'', [''A'', ''B''])]"
    by (elim exE conjE)
  from its obtain a b where ab: "Items res = [a, b]" "ID a = ''A''" "GraphPath (Provenance a) = [''A'']"
    by auto
  then have mem: "a \<in> set (Items res)" by simp
  from graph_Retrieve_scores [OF res mem] ab(3) have "Score a = 1"
    by auto
  with res mem ab(2) show ?thesis by blast
qed

section \<open>Zero weights in path scores\<close>

text \<open>
  Claim C10, as stated, fails when two traversed edges join the same end points. With
  the edges from A to B of weights 0 and 0.25, in this order, the path to B comes from
  the first edge, which is stored with weight exactly 0, and both edges are recorded;
  the map holds the weight of the second, so the hop contributes \<open>0.25 * 0.8\<close> and not
  \<open>0.5 * 0.8\<close>. With the weights 0.9 and 0.3 the first edge is shadowed by the second and
  the hop contributes \<open>0.3 * 0.8\<close>.
\<close>

theorem computePathScore_zero_weight_counterexample:
  "memory_Traverse (exGraph2 0 0.25) [''A'']
      \<lparr>Depth = 2, EdgeTypes = [], NodeTypes = [], MaxNodes = 20, MinWeight = 0\<rparr>
     = Inr \<lparr>Nodes = [exNode ''A'', exNode ''B''],
            Edges = [exEdge ''A'' ''B'' 0, (exEdge ''A'' ''B'' 0.25)\<lparr>Edge.Type := ''part_of''\<rparr>],
            Paths = [''A'' \<mapsto> [''A''], ''B'' \<mapsto> [''A'', ''B'']]\<rparr>
   \<and> map (\<lambda>i. (ID i, Score i))
        (case graph_Retrieve (exGraphRetriever (exGraph2 0 0.25)) 3
                (exQuery\<lparr>Entities := [exHint ''A''], TopK := 0\<rparr>) of
           Inr res \<Rightarrow> Items res | Inl e \<Rightarrow> [])
     = [(''A'', 1), (''B'', 0.2)]
   \<and> computePathScore [''A'', ''B'']
        [exEdge ''A'' ''B'' 0, (exEdge ''A'' ''B'' 0.25)\<lparr>Edge.Type := ''part_of''\<rparr>] = 0.2
   \<and> computePathScore [''A'', ''B'']
        [exEdge ''A'' ''B'' 0.9, (exEdge ''A'' ''B'' 0.3)\<lparr>Edge.Type := ''part_of''\<rparr>] = 0.24
   \<and> 0.5 * 0.8 = (0.4 :: real)"
  by (simp add: graph_Retrieve_def exGraphRetriever_def graph_NewRetriever_def exStore_def
      exQuery_def exHint_def exGraph2_def ex_defs bfs.simps convertNode_def nodeItem_def
      computePathScore_def hopStep_def buildEdgeWeights_def edgeKey_def)

text \<open>
  Claim C10, amended. \<open>computePathScore\<close> tells a missing weight by comparing what it
  read from \<^verbatim>\<open>edgeWeights\<close> with 0, and what it reads for a hop is the weight of the last
  edge of the traversed-edge list whose key \<^verbatim>\<open>From + "->" + To\<close> is the key of the hop.
  Every hop multiplies the score by \<open>w * 0.8\<close>, where \<open>w\<close> is that weight, and 0.5 when
  the list has no edge with the key or that weight is exactly 0. So a hop for which the
  last edge with its key has weight exactly 0, or for which no edge has its key,
  contributes \<open>0.5 * 0.8\<close> and not 0, and a path of one such hop has the score
  \<open>0.5 * 0.8\<close>, which is positive.
\<close>

theorem computePathScore_zero_weight:
  "computePathScore (p @ [a, b]) es
     = computePathScore (p @ [a]) es
       * ((case find (\<lambda>e. edgeKey (From e) (To e) = edgeKey a b) (rev es) of
             None \<Rightarrow> 0.5
           | Some e \<Rightarrow> if Weight e = 0 then 0.5 else Weight e) * 0.8)
   \<and> (find (\<lambda>e. edgeKey (From e) (To e) = edgeKey a b) (rev es) = None
        \<or> (\<exists>e. find (\<lambda>e. edgeKey (From e) (To e) = edgeKey a b) (rev es) = Some e
               \<and> Weight e = 0)
      \<longrightarrow> computePathScore (p @ [a, b]) es = computePathScore (p @ [a]) es * (0.5 * 0.8)
          \<and> computePathScore [a, b] es = 0.5 * 0.8
          \<and> 0 < computePathScore [a, b] es)"
proof (intro conjI impI)
  show "computePathScore (p @ [a, b]) es
     = computePathScore (p @ [a]) es
       * ((case find (\<lambda>e. edgeKey (From e) (To e) = edgeKey a b) (rev es) of
             None \<Rightarrow> 0.5
           | Some e \<Rightarrow> if Weight e = 0 then 0.5 else Weight e) * 0.8)"
    by (simp only: computePathScore_snoc hopWeight_last)
next
  assume z: "find (\<lambda>e. edgeKey (From e) (To e) = edgeKey a b) (rev es) = None
        \<or> (\<exists>e. find (\<lambda>e. edgeKey (From e) (To e) = edgeKey a b) (rev es) = Some e
               \<and> Weight e = 0)"
  have w: "hopWeight es a b = 0.5"
    using z by (auto simp: hopWeight_last)
  have s: "computePathScore (p @ [a, b]) es = computePathScore (p @ [a]) es * (0.5 * 0.8)" for p
    by (simp add: computePathScore_snoc w)
  show "computePathScore (p @ [a, b]) es = computePathScore (p @ [a]) es * (0.5 * 0.8)"
    by (rule s)
  show "computePathScore [a, b] es = 0.5 * 0.8"
    using s [of "[]"] by (simp add: computePathScore_prod)
  then show "0 < computePathScore [a, b] es"
    by simp
qed

theorem computePathScore_zero_weight_witness:
  "computePathScore [''A'', ''B''] [exEdge ''A'' ''B'' 0] = 0.4
   \<and> computePathScore [''A'', ''B''] [exEdge ''A'' ''B'' 0.9, exEdge ''A'' ''B'' 0] = 0.4
   \<and> computePathScore [''A'', ''B''] [exEdge ''B'' ''A'' 0.9] = 0.4
   \<and> computePathScore [''A'', ''B''] [exEdge ''A'' ''B'' 0, exEdge ''A'' ''B'' 0.25]
       = computePathScore [''A''] [exEdge ''A'' ''B'' 0, exEdge ''A'' ''B'' 0.25] * (0.25 * 0.8)"
proof -
  have h1: "find (\<lambda>e. edgeKey (From e) (To e) = edgeKey ''A'' ''B'') (rev [exEdge ''A'' ''B'' 0]) = None
         \<or> (\<exists>e. find (\<lambda>e. edgeKey (From e) (To e) = edgeKey ''A'' ''B'') (rev [exEdge ''A'' ''B'' 0])
                  = Some e \<and> Weight e = 0)"
    by (simp add: exEdge_def)
  have h2: "find (\<lambda>e. edgeKey (From e) (To e) = edgeKey ''A'' ''B'')
              (rev [exEdge ''A'' ''B'' 0.9, exEdge ''A'' ''B'' 0]) = None
         \<or> (\<exists>e. find (\<lambda>e. edgeKey (From e) (To e) = edgeKey ''A'' ''B'')
                    (rev [exEdge ''A'' ''B'' 0.9, exEdge ''A'' ''B'' 0]) = Some e \<and> Weight e = 0)"
    by (simp add: exEdge_def)
  have h3: "find (\<lambda>e. edgeKey (From e) (To e) = edgeKey ''A'' ''B'') (rev [exEdge ''B'' ''A'' 0.9]) = None
         \<or> (\<exists>e. find (\<lambda>e. edgeKey (From e) (To e) = edgeKey ''A'' ''B'') (rev [exEdge ''B'' ''A'' 0.9])
                  = Some e \<and> Weight e = 0)"
    by (simp add: exEdge_def edgeKey_def)
  have c1: "computePathScore [''A'', ''B''] [exEdge ''A'' ''B'' 0] = 0.4"
    using computePathScore_zero_weight [of "[]" "''A''" "''B''" "[exEdge ''A'' ''B'' 0]",
        THEN conjunct2, rule_format, OF h1]
    by simp
  have c2: "computePathScore [''A'', ''B''] [exEdge ''A'' ''B'' 0.9, exEdge ''A'' ''B'' 0] = 0.4"
    using computePathScore_zero_weight [of "[]" "''A''" "''B''"
        "[exEdge ''A'' ''B'' 0.9, exEdge ''A'' ''B'' 0]", THEN conjunct2, rule_format, OF h2]
    by simp
  have c3: "computePathScore [''A'', ''B''] [exEdge ''B'' ''A'' 0.9] = 0.4"
    using computePathScore_zero_weight [of "[]" "''A''" "''B''" "[exEdge ''B'' ''A'' 0.9]",
        THEN conjunct2, rule_format, OF h3]
    by simp
  have c4: "computePathScore [''A'', ''B''] [exEdge ''A'' ''B'' 0, exEdge ''A'' ''B'' 0.25]
       = computePathScore [''A''] [exEdge ''A'' ''B'' 0, exEdge ''A'' ''B'' 0.25] * (0.25 * 0.8)"
    using computePathScore_zero_weight [of "[]" "''A''" "''B''"
        "[exEdge ''A'' ''B'' 0, exEdge ''A'' ''B'' 0.25]", THEN conjunct1]
    by (simp add: exEdge_def)
  from c1 c2 c3 c4 show ?thesis by blast
qed

section \<open>Empty start sets\<close>

lemma bfs_empty_queue: "queue st = [] \<Longrightarrow> bfs kg opts st = st"
  by (simp add: bfs.simps bfsCond_def)

text \<open>
  Claim C8. An empty start set is not an error. When every start identifier is absent
  from the graph (in particular when there is none), \<open>Traverse\<close> returns, without error,
  the result with no nodes, no edges and no paths. When the query has no entity hint
  with an identifier and \<^verbatim>\<open>FindNodes\<close> finds no node, the graph retriever returns, without
  error, a result with an empty item list, the query and the mode \<^verbatim>\<open>graph\<close>. When the
  hints have identifiers that are all absent from the in-memory graph behind the
  retriever, it returns a result with an empty item list as well.
\<close>

theorem empty_start_not_error:
  "(list_all (\<lambda>id. nodes kg id = None) startNodes \<longrightarrow>
      memory_Traverse kg startNodes opts = Inr \<lparr>Nodes = [], Edges = [], Paths = Map.empty\<rparr>)
   \<and> (filter (\<lambda>e. EntityHint.ID e \<noteq> []) (Entities q) = []
        \<and> FindNodes (graph_RetrieverConfig.Graph r) [] (Filters q) = Inr [] \<longrightarrow>
      graph_Retrieve r elapsed q =
        Inr \<lparr>Items = [], Query = q,
             Metadata = \<lparr>TotalCandidates = 0, LatencyMS = 0, ModesUsed = [ModeGraph],
                          CacheHit = False\<rparr>\<rparr>)
   \<and> (filter (\<lambda>e. EntityHint.ID e \<noteq> []) (Entities q) \<noteq> []
        \<and> list_all (\<lambda>e. nodes kg (EntityHint.ID e) = None) (Entities q)
        \<and> Traverse (graph_RetrieverConfig.Graph r) = memory_Traverse kg \<longrightarrow>
      graph_Retrieve r elapsed q =
        Inr \<lparr>Items = [], Query = q,
             Metadata = \<lparr>TotalCandidates = 0, LatencyMS = elapsed, ModesUsed = [ModeGraph],
                          CacheHit = False\<rparr>\<rparr>)"
proof (intro conjI impI)
  assume "list_all (\<lambda>id. nodes kg id = None) startNodes"
  then have "filter (\<lambda>id. nodes kg id \<noteq> None) startNodes = []"
    by (simp add: list_all_iff filter_empty_conv)
  then show "memory_Traverse kg startNodes opts
      = Inr \<lparr>Nodes = [], Edges = [], Paths = Map.empty\<rparr>"
    by (simp add: memory_Traverse_def bfs_empty_queue)
next
  assume "filter (\<lambda>e. EntityHint.ID e \<noteq> []) (Entities q) = []
        \<and> FindNodes (graph_RetrieverConfig.Graph r) [] (Filters q) = Inr []"
  then show "graph_Retrieve r elapsed q =
        Inr \<lparr>Items = [], Query = q,
             Metadata = \<lparr>TotalCandidates = 0, LatencyMS = 0, ModesUsed = [ModeGraph],
                          CacheHit = False\<rparr>\<rparr>"
    by (simp add: graph_Retrieve_def)
next
  assume a: "filter (\<lambda>e. EntityHint.ID e \<noteq> []) (Entities q) \<noteq> []
        \<and> list_all (\<lambda>e. nodes kg (EntityHint.ID e) = None) (Entities q)
        \<and> Traverse (graph_RetrieverConfig.Graph r) = memory_Traverse kg"
  let ?starts = "map EntityHint.ID (filter (\<lambda>e. EntityHint.ID e \<noteq> []) (Entities q))"
  have "filter (\<lambda>id. nodes kg id \<noteq> None) ?starts = []"
    using a by (auto simp: list_all_iff filter_empty_conv)
  then have "memory_Traverse kg ?starts opts
      = Inr \<lparr>Nodes = [], Edges = [], Paths = Map.empty\<rparr>" for opts
    by (simp add: memory_Traverse_def bfs_empty_queue)
  with a show "graph_Retrieve r elapsed q =
        Inr \<lparr>Items = [], Query = q,
             Metadata = \<lparr>TotalCandidates = 0, LatencyMS = elapsed, ModesUsed = [ModeGraph],
                          CacheHit = False\<rparr>\<rparr>"
    by (simp add: graph_Retrieve_def Let_def)
qed

theorem empty_start_not_error_witness:
  "memory_Traverse (exGraph 0.9) [''Z''] (exOpts 2)
     = Inr \<lparr>Nodes = [], Edges = [], Paths = Map.empty\<rparr>
   \<and> graph_Retrieve (exGraphRetriever (exGraph 0.9)) 3 exQuery
     = Inr \<lparr>Items = [], Query = exQuery,
            Metadata = \<lparr>TotalCandidates = 0, LatencyMS = 0, ModesUsed = [ModeGraph],
                         CacheHit = False\<rparr>\<rparr>
   \<and> graph_Retrieve (exGraphRetriever (exGraph 0.9)) 3 (exQuery\<lparr>Entities := [exHint ''Z'']\<rparr>)
     = Inr \<lparr>Items = [], Query = exQuery\<lparr>Entities := [exHint ''Z'']\<rparr>,
            Metadata = \<lparr>TotalCandidates = 0, LatencyMS = 3, ModesUsed = [ModeGraph],
                         CacheHit = False\<rparr>\<rparr>"
proof -
  have n: "nodes (exGraph 0.9) ''Z'' = None"
    by (simp add: exGraph_def AddEdge_def AddNode_def NewKnowledgeGraph_def exNode_def)
  have g: "graph_RetrieverConfig.Graph (exGraphRetriever (exGraph 0.9)) = exStore (exGraph 0.9)"
    by (simp add: exGraphRetriever_def graph_NewRetriever_def)
  from empty_start_not_error [of "exGraph 0.9" "[''Z'']" "exOpts 2" exQuery
      "exGraphRetriever (exGraph 0.9)" 3]
    empty_start_not_error [of "exGraph 0.9" "[''Z'']" "exOpts 2"
      "exQuery\<lparr>Entities := [exHint ''Z'']\<rparr>" "exGraphRetriever (exGraph 0.9)" 3]
  show ?thesis
    using n g by (simp add: exQuery_def exHint_def exStore_def)
qed

section \<open>The depth bound of Traverse\<close>

lemma wellFormed_New: "wellFormed (NewKnowledgeGraph n)"
  by (simp add: wellFormed_def NewKnowledgeGraph_def)

lemma wellFormed_AddNode: "wellFormed kg \<Longrightarrow> wellFormed (AddNode kg node)"
  by (simp add: wellFormed_def AddNode_def)

lemma wellFormed_AddEdge: "wellFormed kg \<Longrightarrow> wellFormed (AddEdge kg edge)"
  by (simp add: wellFormed_def AddEdge_def)

lemma isPath_snoc:
  "p \<noteq> [] \<Longrightarrow> isPath kg p \<Longrightarrow> b \<in> To ` set (edges kg (last p)) \<Longrightarrow> isPath kg (p @ [b])"
proof (induction p rule: induct_list012)
  case 1
  then show ?case by simp
next
  case (2 x)
  then show ?case by simp
next
  case (3 x y zs)
  then show ?case by simp
qed

lemma goodPath_snoc:
  assumes "goodPath kg startNodes k p" and "e \<in> set (edges kg k)"
  shows "goodPath kg startNodes (To e) (p @ [To e])"
proof -
  have "isPath kg (p @ [To e])"
    using assms by (intro isPath_snoc) (auto simp: goodPath_def)
  then show ?thesis
    using assms(1) by (simp add: goodPath_def)
qed

lemma paths_traverseEdge: "paths (traverseEdge opts current st e) = paths st"
  by (simp add: traverseEdge_def)

lemma resultNodes_traverseEdge: "resultNodes (traverseEdge opts current st e) = resultNodes st"
  by (simp add: traverseEdge_def)

lemma paths_foldl_traverseEdge: "paths (foldl (traverseEdge opts current) st es) = paths st"
  by (induction es arbitrary: st) (simp_all add: paths_traverseEdge)

lemma resultNodes_foldl_traverseEdge:
  "resultNodes (foldl (traverseEdge opts current) st es) = resultNodes st"
  by (induction es arbitrary: st) (simp_all add: resultNodes_traverseEdge)

lemma queue_foldl_traverseEdge_items:
  "\<exists>new. queue (foldl (traverseEdge opts current) st es) = queue st @ new
      \<and> list_all (\<lambda>q. \<exists>e\<in>set es. q = \<lparr>nodeID = To e, path = path current @ [To e],
                                        depth = depth current + 1\<rparr>) new"
proof (induction es arbitrary: st)
  case Nil
  show ?case by simp
next
  case (Cons e es)
  obtain new where new:
    "queue (foldl (traverseEdge opts current) (traverseEdge opts current st e) es)
       = queue (traverseEdge opts current st e) @ new"
    "list_all (\<lambda>q. \<exists>e\<in>set es. q = \<lparr>nodeID = To e, path = path current @ [To e],
                                      depth = depth current + 1\<rparr>) new"
    using Cons.IH by blast
  have new': "list_all (\<lambda>q. \<exists>e'\<in>set (e # es). q = \<lparr>nodeID = To e', path = path current @ [To e'],
                                      depth = depth current + 1\<rparr>) new"
    using new(2) by (auto simp: list_all_iff)
  show ?case
  proof (cases "queue (traverseEdge opts current st e) = queue st")
    case True
    with new(1) new' show ?thesis by auto
  next
    case False
    then have "queue (traverseEdge opts current st e) = queue st @
        [\<lparr>nodeID = To e, path = path current @ [To e], depth = depth current + 1\<rparr>]"
      by (auto simp: traverseEdge_def split: if_splits)
    with new(1) new' show ?thesis by auto
  qed
qed

lemma bfsInv_expand:
  assumes inv: "bfsInv kg opts startNodes st"
    and cur: "goodPath kg startNodes (nodeID current) (path current)"
      "int (length (path current)) = depth current + 1"
  shows "bfsInv kg opts startNodes (expand kg opts current st)"
proof (cases "depth current \<ge> Depth opts")
  case True
  with inv show ?thesis by (simp add: expand_def)
next
  case False
  let ?st = "foldl (traverseEdge opts current) st (edges kg (nodeID current))"
  obtain new where new: "queue ?st = queue st @ new"
    "list_all (\<lambda>q. \<exists>e\<in>set (edges kg (nodeID current)).
        q = \<lparr>nodeID = To e, path = path current @ [To e], depth = depth current + 1\<rparr>) new"
    using queue_foldl_traverseEdge_items by blast
  have "goodPath kg startNodes (nodeID q) (path q)
      \<and> int (length (path q)) = depth q + 1 \<and> depth q \<le> Depth opts" if mem: "q \<in> set new" for q
  proof -
    from new(2) mem obtain e where e: "e \<in> set (edges kg (nodeID current))"
      "q = \<lparr>nodeID = To e, path = path current @ [To e], depth = depth current + 1\<rparr>"
      by (auto simp: list_all_iff)
    show ?thesis
      using goodPath_snoc [OF cur(1) e(1)] cur(2) False by (simp add: e(2))
  qed
  then have "list_all (\<lambda>q. goodPath kg startNodes (nodeID q) (path q)
      \<and> int (length (path q)) = depth q + 1 \<and> depth q \<le> Depth opts) new"
    unfolding list_all_iff by blast
  then have "list_all (\<lambda>q. goodPath kg startNodes (nodeID q) (path q)
      \<and> int (length (path q)) = depth q + 1 \<and> depth q \<le> Depth opts) (queue ?st)"
    using inv by (simp add: new(1) bfsInv_def)
  then have "bfsInv kg opts startNodes ?st"
    using inv
    by (simp add: bfsInv_def paths_foldl_traverseEdge resultNodes_foldl_traverseEdge)
  with False show ?thesis by (simp add: expand_def)
qed

lemma bfsInv_step:
  assumes wf: "wellFormed kg" and inv: "bfsInv kg opts startNodes st"
    and c: "bfsCond opts st"
  shows "bfsInv kg opts startNodes (bfsIter kg opts st)"
proof -
  obtain current rest where q: "queue st = current # rest"
    using c by (cases "queue st") (auto simp: bfsCond_def)
  have cur: "goodPath kg startNodes (nodeID current) (path current)"
    "int (length (path current)) = depth current + 1" "depth current \<le> Depth opts"
    using inv q by (simp_all add: bfsInv_def)
  have inv1: "bfsInv kg opts startNodes (st\<lparr>queue := rest\<rparr>)"
    using inv q by (simp add: bfsInv_def)
  let ?st2 = "st\<lparr>queue := rest, visited := insert (nodeID current) (visited st)\<rparr>"
  have inv2: "bfsInv kg opts startNodes ?st2"
    using inv1 by (simp add: bfsInv_def)
  have inv3: "bfsInv kg opts startNodes
      (?st2\<lparr>resultNodes := resultNodes st @ [node],
            paths := (paths st)(nodeID current \<mapsto> path current)\<rparr>)"
    if "nodes kg (nodeID current) = Some node" for node
  proof -
    have "Node.ID node = nodeID current"
      using wf that by (simp add: wellFormed_def)
    then show ?thesis
      using inv2 cur by (auto simp: bfsInv_def list_all_iff)
  qed
  show ?thesis
    unfolding bfsIter_def q
    by (auto simp: Let_def inv1 inv2 split: option.splits
        intro!: bfsInv_expand [OF inv2 cur(1,2)] bfsInv_expand [OF inv3 cur(1,2)])
qed

lemma bfs_invariant:
  assumes "I st" and "\<And>s. I s \<Longrightarrow> bfsCond opts s \<Longrightarrow> I (bfsIter kg opts s)"
  shows "I (bfs kg opts st)"
  using assms
proof (induction kg opts st rule: bfs.induct)
  case (1 kg opts st)
  show ?case
  proof (cases "bfsCond opts st")
    case True
    then have "I (bfs kg opts (bfsIter kg opts st))"
      using 1 by blast
    with True show ?thesis by (subst bfs.simps) simp
  next
    case False
    with 1(2) show ?thesis by (subst bfs.simps) simp
  qed
qed

text \<open>
  Claim C3, as stated, fails for a negative \<open>Depth\<close>: the depth is compared only after
  the dequeued node has been recorded. On the example graph, with \<open>MaxNodes = 10\<close>, no
  node-type filter and \<open>Depth = -1\<close>, the start node A is returned with its path of one
  identifier (no hop): that is more than \<open>d\<close> hops and more than \<open>d + 1\<close> identifiers.
\<close>

theorem Traverse_depth_bound_counterexample:
  "memory_Traverse (exGraph 0.9) [''A''] (exOpts (- 1))
     = Inr \<lparr>Nodes = [exNode ''A''], Edges = [], Paths = [''A'' \<mapsto> [''A'']]\<rparr>
   \<and> \<not> int (length [''A'']) \<le> Depth (exOpts (- 1)) + 1"
  by (simp add: ex_defs bfs.simps)

text \<open>
  Claim C3, amended: the depth bound for \<open>Depth = d \<ge> 0\<close>. In a graph that stores every
  node under its own identifier (as \<open>AddNode\<close> does), every node of the result of
  \<open>Traverse\<close> has a recorded path; the path starts at a start node that is in the graph,
  ends at the node, follows edges of the graph, and has at most \<open>d + 1\<close> identifiers, that
  is at most \<open>d\<close> hops. So every node of the result is within \<open>d\<close> hops of a start node,
  and every recorded path obeys the bound.
\<close>

theorem Traverse_depth_bound:
  assumes "wellFormed kg" and "0 \<le> Depth opts"
    and "memory_Traverse kg startNodes opts = Inr result"
  shows "(\<forall>n\<in>set (Nodes result). \<exists>p. Paths result (Node.ID n) = Some p)
       \<and> (\<forall>k p. Paths result k = Some p \<longrightarrow>
              p \<noteq> [] \<and> hd p \<in> set startNodes \<and> nodes kg (hd p) \<noteq> None \<and> last p = k
              \<and> isPath kg p \<and> int (length p) \<le> Depth opts + 1)"
proof -
  let ?init = "\<lparr>visited = {}, paths = Map.empty, resultNodes = [], resultEdges = [],
      queue = map (\<lambda>id. \<lparr>nodeID = id, path = [id], depth = 0\<rparr>)
                (filter (\<lambda>id. nodes kg id \<noteq> None) startNodes)\<rparr>"
  have "bfsInv kg opts startNodes ?init"
    using assms(2) by (auto simp: bfsInv_def goodPath_def list_all_iff)
  then have "bfsInv kg opts startNodes (bfs kg opts ?init)"
    by (rule bfs_invariant) (rule bfsInv_step [OF assms(1)])
  moreover have "result = \<lparr>Nodes = resultNodes (bfs kg opts ?init),
      Edges = resultEdges (bfs kg opts ?init), Paths = paths (bfs kg opts ?init)\<rparr>"
    using assms(3) by (simp add: memory_Traverse_def Let_def)
  ultimately show ?thesis
    by (simp add: bfsInv_def goodPath_def list_all_iff)
qed

theorem Traverse_depth_bound_witness:
  "wellFormed (exGraph 0.9) \<and> 0 \<le> Depth (exOpts 1)
   \<and> (\<exists>result. memory_Traverse (exGraph 0.9) [''A''] (exOpts 1) = Inr result
         \<and> map Node.ID (Nodes result) = [''A'', ''B'']
         \<and> Paths result ''B'' = Some [''A'', ''B'']
         \<and> int (length [''A'', ''B'']) \<le> Depth (exOpts 1) + 1)"
proof -
  have wf: "wellFormed (exGraph 0.9)"
    unfolding exGraph_def
    by (intro wellFormed_AddEdge wellFormed_AddNode wellFormed_New)
  have d: "0 \<le> Depth (exOpts 1)"
    by (simp add: exOpts_def)
  have ev: "memory_Traverse (exGraph 0.9) [''A''] (exOpts 1)
      = Inr \<lparr>Nodes = [exNode ''A'', exNode ''B''], Edges = [exEdge ''A'' ''B'' 0.9],
             Paths = [''A'' \<mapsto> [''A''], ''B'' \<mapsto> [''A'', ''B'']]\<rparr>"
    by (simp add: ex_defs bfs.simps)
  from Traverse_depth_bound [OF wf d ev] wf d ev show ?thesis
    by (simp add: exNode_def exOpts_def)
qed

end
